theory Spec2Isabelle
  imports Complex_Main "HOL-Library.Multiset" "HOL-Library.Product_Lexorder"
begin

section \<open>Python strings\<close>

text \<open>
  A Python \<open>str\<close> is a sequence of code points. The model takes the code points below 256,
  one \<open>char\<close> each, so that \<open>length\<close> counts what Python's \<open>len\<close> counts. On these code
  points the character classes of \<open>str.strip\<close>, \<open>str.split\<close>, \<open>str.lower\<close> and of the
  \<open>re\<close> module (\<open>\s\<close>, \<open>\d\<close>, \<open>\w\<close> on \<open>str\<close> patterns) are the following; \<open>str.lower\<close>
  maps them to code points below 256 again. Texts with higher code points are outside the
  model.

  The fixed messages of the source are Vietnamese; they are written here without their
  diacritics (the theory is ASCII). No function of the source inspects them, except for the
  lookup of a reason in \<open>RISK_STATEMENTS\<close>, and the four reasons stay pairwise distinct.
\<close>

definition py_isspace :: "char \<Rightarrow> bool" where
  "py_isspace c =
     (let n = (of_char c :: nat)
      in (9 \<le> n \<and> n \<le> 13) \<or> (28 \<le> n \<and> n \<le> 32) \<or> n = 133 \<or> n = 160)"

definition re_digit :: "char \<Rightarrow> bool" where
  "re_digit c = (let n = (of_char c :: nat) in 48 \<le> n \<and> n \<le> 57)"

definition re_word :: "char \<Rightarrow> bool" where
  "re_word c =
     (let n = (of_char c :: nat)
      in (48 \<le> n \<and> n \<le> 57) \<or> (65 \<le> n \<and> n \<le> 90) \<or> n = 95 \<or> (97 \<le> n \<and> n \<le> 122)
         \<or> n = 170 \<or> n = 178 \<or> n = 179 \<or> n = 181 \<or> n = 185 \<or> n = 186
         \<or> (188 \<le> n \<and> n \<le> 190) \<or> (192 \<le> n \<and> n \<le> 214) \<or> (216 \<le> n \<and> n \<le> 246)
         \<or> (248 \<le> n \<and> n \<le> 255))"

definition py_lower_char :: "char \<Rightarrow> char" where
  "py_lower_char c =
     (let n = (of_char c :: nat)
      in if (65 \<le> n \<and> n \<le> 90) \<or> (192 \<le> n \<and> n \<le> 222 \<and> n \<noteq> 215)
         then char_of (n + 32) else c)"

definition py_lower :: "string \<Rightarrow> string" where
  "py_lower s = map py_lower_char s"

definition py_strip :: "string \<Rightarrow> string" where
  "py_strip s = rev (dropWhile py_isspace (rev (dropWhile py_isspace s)))"

text \<open>\<open>s.split()\<close>: the maximal runs of non-whitespace; \<open>cur\<close> is the run being read.\<close>

fun split_ws :: "string \<Rightarrow> string \<Rightarrow> string list" where
  "split_ws cur [] = (if cur = [] then [] else [cur])"
| "split_ws cur (c # cs) =
     (if py_isspace c then (if cur = [] then split_ws [] cs else cur # split_ws [] cs)
      else split_ws (cur @ [c]) cs)"

definition py_split :: "string \<Rightarrow> string list" where
  "py_split s = split_ws [] s"

fun py_join :: "string \<Rightarrow> string list \<Rightarrow> string" where
  "py_join sep [] = []"
| "py_join sep [x] = x"
| "py_join sep (x # y # ys) = x @ sep @ py_join sep (y # ys)"

definition startswith :: "string \<Rightarrow> string \<Rightarrow> bool" where
  "startswith s p = (take (length p) s = p)"

definition endswith :: "string \<Rightarrow> string \<Rightarrow> bool" where
  "endswith s p = (length p \<le> length s \<and> drop (length s - length p) s = p)"

fun str_nat :: "nat \<Rightarrow> string" where
  "str_nat n = (if n < 10 then [char_of (48 + n)] else str_nat (n div 10) @ [char_of (48 + n mod 10)])"

declare str_nat.simps [simp del]

definition str_int :: "int \<Rightarrow> string" where
  "str_int i = (if i < 0 then CHR ''-'' # str_nat (nat (- i)) else str_nat (nat i))"

section \<open>Data model (app/models)\<close>

datatype ChangeType = ADDED | DELETED | MODIFIED

datatype ImpactLevel = CRITICAL | MEDIUM | LOW

text \<open>
  Two classes of the source share the field names \<open>block_type\<close> and \<open>change_type\<close>; the
  fields of \<open>ContentBlock\<close> and \<open>WordChange\<close> carry a prefix here, as does \<open>context\<close>, a
  keyword of Isabelle.
\<close>

record ContentBlock =
  index :: int
  cb_block_type :: string
  content :: string

record WordChange =
  wc_change_type :: string
  old_text :: string
  new_text :: string
  wc_context :: string

text \<open>
  \<open>similarity\<close> is a Python float in the source, always the value of
  \<open>SequenceMatcher.ratio()\<close>; the model keeps the exact quotient (see the section on
  difflib).
\<close>

record Change =
  change_id :: int
  change_type :: ChangeType
  block_type :: string
  location :: string
  original :: "string option"
  modified :: "string option"
  similarity :: "rat option"
  diff_text :: "string option"
  word_changes :: "WordChange list option"

record ClassifiedChange = Change +
  impact :: ImpactLevel
  reasoning :: string
  risk_analysis :: string
  classification_source :: string

section \<open>difflib.SequenceMatcher\<close>

text \<open>
  The source aligns blocks, words and characters with \<open>SequenceMatcher(None, a, b)\<close> of
  Python's standard library. The functions below follow CPython's \<open>Lib/difflib.py\<close> for
  that call: no junk predicate (\<open>isjunk\<close> is \<open>None\<close>, so the set \<open>bjunk\<close> is empty and the
  two loops that extend a match by junk never run) and \<open>autojunk\<close> at its default \<open>True\<close>.

  \<open>__chain_b\<close>: \<open>b2j\<close> maps an element to the ascending list of its positions in \<open>b\<close>; in
  a sequence of at least 200 elements, an element at more than \<open>n // 100 + 1\<close> positions
  is popular and loses its entry.
\<close>

definition b2j :: "'a list \<Rightarrow> 'a \<Rightarrow> nat list" where
  "b2j b x =
     (let idxs = filter (\<lambda>j. b ! j = x) [0..<length b]; n = length b
      in if 200 \<le> n \<and> n div 100 + 1 < length idxs then [] else idxs)"

type_synonym match = "nat \<times> nat \<times> nat"

text \<open>
  \<open>find_longest_match\<close>, the inner loop over the positions \<open>j\<close> of \<open>a[i]\<close> in \<open>b\<close>:
  \<open>j2len\<close> is the row of \<open>i - 1\<close>, \<open>newj2len\<close> the row being built. Python's
  \<open>j2len.get(j-1, 0)\<close> at \<open>j = 0\<close> looks up the key \<open>-1\<close>, which no row has.
\<close>

definition j2lenget :: "(nat \<rightharpoonup> nat) \<Rightarrow> nat \<Rightarrow> nat" where
  "j2lenget j2len j = (if j = 0 then 0 else case j2len (j - 1) of None \<Rightarrow> 0 | Some v \<Rightarrow> v)"

fun flm_inner ::
  "nat \<Rightarrow> nat \<Rightarrow> nat \<Rightarrow> (nat \<rightharpoonup> nat) \<Rightarrow> nat list \<Rightarrow> match \<times> (nat \<rightharpoonup> nat) \<Rightarrow> match \<times> (nat \<rightharpoonup> nat)"
where
  "flm_inner blo bhi i j2len [] st = st"
| "flm_inner blo bhi i j2len (j # js) (best, newj2len) =
     (if j < blo then flm_inner blo bhi i j2len js (best, newj2len)
      else if bhi \<le> j then (best, newj2len)
      else
        let k = j2lenget j2len j + 1;
            best' = (case best of (besti, bestj, bestsize) \<Rightarrow>
                       if bestsize < k then (i + 1 - k, j + 1 - k, k) else best)
        in flm_inner blo bhi i j2len js (best', newj2len(j \<mapsto> k)))"

text \<open>The outer loop \<open>for i in range(alo, ahi)\<close>, from row \<open>i\<close> on.\<close>

function flm_rows ::
  "'a list \<Rightarrow> 'a list \<Rightarrow> nat \<Rightarrow> nat \<Rightarrow> nat \<Rightarrow> nat \<Rightarrow> match \<times> (nat \<rightharpoonup> nat) \<Rightarrow> match"
where
  "flm_rows a b blo bhi i ahi (best, j2len) =
     (if i < ahi
      then flm_rows a b blo bhi (Suc i) ahi
             (flm_inner blo bhi i j2len (b2j b (a ! i)) (best, Map.empty))
      else best)"
  by pat_completeness auto
termination
  by (relation "measure (\<lambda>(a, b, blo, bhi, i, ahi, st). ahi - i)") auto

declare flm_rows.simps [simp del]

text \<open>The two loops that extend the best match by equal elements on each end.\<close>

function extend_left :: "'a list \<Rightarrow> 'a list \<Rightarrow> nat \<Rightarrow> nat \<Rightarrow> match \<Rightarrow> match" where
  "extend_left a b alo blo (besti, bestj, bestsize) =
     (if alo < besti \<and> blo < bestj \<and> a ! (besti - 1) = b ! (bestj - 1)
      then extend_left a b alo blo (besti - 1, bestj - 1, bestsize + 1)
      else (besti, bestj, bestsize))"
  by pat_completeness auto
termination
  by (relation "measure (\<lambda>(a, b, alo, blo, besti, bestj, bestsize). besti)") auto

declare extend_left.simps [simp del]

function extend_right :: "'a list \<Rightarrow> 'a list \<Rightarrow> nat \<Rightarrow> nat \<Rightarrow> match \<Rightarrow> match" where
  "extend_right a b ahi bhi (besti, bestj, bestsize) =
     (if besti + bestsize < ahi \<and> bestj + bestsize < bhi
         \<and> a ! (besti + bestsize) = b ! (bestj + bestsize)
      then extend_right a b ahi bhi (besti, bestj, bestsize + 1)
      else (besti, bestj, bestsize))"
  by pat_completeness auto
termination
  by (relation "measure (\<lambda>(a, b, ahi, bhi, besti, bestj, bestsize). ahi - (besti + bestsize))") auto

declare extend_right.simps [simp del]

definition find_longest_match :: "'a list \<Rightarrow> 'a list \<Rightarrow> nat \<Rightarrow> nat \<Rightarrow> nat \<Rightarrow> nat \<Rightarrow> match" where
  "find_longest_match a b alo ahi blo bhi =
     extend_right a b ahi bhi
       (extend_left a b alo blo
         (flm_rows a b blo bhi alo ahi ((alo, blo, 0), Map.empty)))"

subsection \<open>The best match lies inside the region searched\<close>

text \<open>
  Either nothing was found (size 0, at the corner of the region) or the match lies within
  \<open>a[alo:ahi]\<close> and \<open>b[blo:bhi]\<close>. A row \<open>j2len\<close> of the table is bounded by the number
  of rows seen and by the distance to \<open>blo\<close>.
\<close>

definition match_in :: "nat \<Rightarrow> nat \<Rightarrow> nat \<Rightarrow> nat \<Rightarrow> match \<Rightarrow> bool" where
  "match_in alo ahi blo bhi m =
     (case m of (i, j, k) \<Rightarrow>
        (k = 0 \<and> i = alo \<and> j = blo) \<or> (alo \<le> i \<and> i + k \<le> ahi \<and> blo \<le> j \<and> j + k \<le> bhi))"

definition row_ok :: "nat \<Rightarrow> nat \<Rightarrow> (nat \<rightharpoonup> nat) \<Rightarrow> bool" where
  "row_ok blo n m = (\<forall>j v. m j = Some v \<longrightarrow> v \<le> n \<and> v \<le> j + 1 - blo)"

lemma j2lenget_le: "row_ok blo n j2len \<Longrightarrow> j2lenget j2len j \<le> n \<and> j2lenget j2len j \<le> j - blo"
  by (auto simp: j2lenget_def row_ok_def split: option.splits) fastforce+

lemma flm_inner_inv:
  assumes "row_ok blo n j2len" and "alo + n = i"
    and "match_in alo (Suc i) blo bhi best" and "row_ok blo (Suc n) newj2len"
  shows "match_in alo (Suc i) blo bhi (fst (flm_inner blo bhi i j2len js (best, newj2len)))
       \<and> row_ok blo (Suc n) (snd (flm_inner blo bhi i j2len js (best, newj2len)))"
  using assms(3,4)
proof (induction js arbitrary: best newj2len)
  case Nil
  then show ?case by simp
next
  case (Cons j js)
  show ?case
  proof (cases "j < blo")
    case True
    then show ?thesis using Cons by simp
  next
    case False
    note jblo = this
    show ?thesis
    proof (cases "bhi \<le> j")
      case True
      then show ?thesis using Cons jblo by simp
    next
      case False
      define k where "k = j2lenget j2len j + 1"
      have kb: "k \<le> Suc n" "k \<le> j + 1 - blo" "1 \<le> k"
        using j2lenget_le[OF assms(1), of j] jblo by (auto simp: k_def)
      obtain bi bj bs where best: "best = (bi, bj, bs)" by (cases best)
      define best' where "best' = (if bs < k then (i + 1 - k, j + 1 - k, k) else best)"
      have m: "match_in alo (Suc i) blo bhi best'"
        using Cons.prems(1) kb assms(2) False jblo
        by (auto simp: best'_def match_in_def best)
      have r: "row_ok blo (Suc n) (newj2len(j \<mapsto> k))"
        using Cons.prems(2) kb by (auto simp: row_ok_def)
      have eq: "flm_inner blo bhi i j2len (j # js) (best, newj2len)
            = flm_inner blo bhi i j2len js (best', newj2len(j \<mapsto> k))"
        using False jblo by (simp add: best best'_def k_def Let_def)
      show ?thesis unfolding eq by (rule Cons.IH[OF m r])
    qed
  qed
qed

lemma match_in_mono: "match_in alo i blo bhi m \<Longrightarrow> i \<le> i' \<Longrightarrow> match_in alo i' blo bhi m"
  by (auto simp: match_in_def)

lemma row_ok_empty: "row_ok blo n Map.empty"
  by (simp add: row_ok_def)

lemma flm_rows_inv:
  assumes "alo \<le> i" and "row_ok blo (i - alo) j2len" and "match_in alo i blo bhi best"
  shows "match_in alo (max i ahi) blo bhi (flm_rows a b blo bhi i ahi (best, j2len))"
  using assms
proof (induction a b blo bhi i ahi "(best, j2len)" arbitrary: best j2len rule: flm_rows.induct)
  case (1 a b blo bhi i ahi best j2len)
  show ?case
  proof (cases "i < ahi")
    case True
    obtain best' row' where st: "flm_inner blo bhi i j2len (b2j b (a ! i)) (best, Map.empty) = (best', row')"
      by (cases "flm_inner blo bhi i j2len (b2j b (a ! i)) (best, Map.empty)")
    have inv: "match_in alo (Suc i) blo bhi best' \<and> row_ok blo (Suc (i - alo)) row'"
      using flm_inner_inv[of blo "i - alo" j2len alo i bhi best Map.empty "b2j b (a ! i)"]
        "1.prems" match_in_mono[of alo i blo bhi best "Suc i"] row_ok_empty st by simp
    have "match_in alo (max (Suc i) ahi) blo bhi (flm_rows a b blo bhi (Suc i) ahi (best', row'))"
      using "1.hyps"[OF True st] inv "1.prems"(1) by (simp add: Suc_diff_le)
    then show ?thesis using True st by (simp add: flm_rows.simps[of a b blo bhi i ahi] max_def)
  next
    case False
    then show ?thesis using "1.prems" by (simp add: flm_rows.simps[of a b blo bhi i ahi] max_def)
  qed
qed

lemma extend_left_inv:
  "match_in alo ahi blo bhi m \<Longrightarrow> match_in alo ahi blo bhi (extend_left a b alo blo m)"
proof (induction a b alo blo m rule: extend_left.induct)
  case (1 a b alo blo besti bestj bestsize)
  show ?case
  proof (cases "alo < besti \<and> blo < bestj \<and> a ! (besti - 1) = b ! (bestj - 1)")
    case True
    have "match_in alo ahi blo bhi (besti - 1, bestj - 1, bestsize + 1)"
      using "1.prems" True by (auto simp: match_in_def)
    then have "match_in alo ahi blo bhi (extend_left a b alo blo (besti - 1, bestj - 1, bestsize + 1))"
      using "1.IH" True by blast
    then show ?thesis using True by (subst extend_left.simps) simp
  next
    case False
    then show ?thesis using "1.prems" by (subst extend_left.simps) auto
  qed
qed

lemma extend_right_inv:
  "match_in alo (max alo ahi) blo bhi m \<Longrightarrow> match_in alo (max alo ahi) blo bhi (extend_right a b ahi bhi m)"
proof (induction a b ahi bhi m rule: extend_right.induct)
  case (1 a b ahi bhi besti bestj bestsize)
  show ?case
  proof (cases "besti + bestsize < ahi \<and> bestj + bestsize < bhi
         \<and> a ! (besti + bestsize) = b ! (bestj + bestsize)")
    case True
    have "match_in alo (max alo ahi) blo bhi (besti, bestj, bestsize + 1)"
      using "1.prems" True by (auto simp: match_in_def)
    then have "match_in alo (max alo ahi) blo bhi (extend_right a b ahi bhi (besti, bestj, bestsize + 1))"
      using "1.IH" True by blast
    then show ?thesis using True by (subst extend_right.simps) simp
  next
    case False
    then show ?thesis using "1.prems" by (subst extend_right.simps) auto
  qed
qed

lemma find_longest_match_bounds:
  assumes "find_longest_match a b alo ahi blo bhi = (i, j, k)" and "k \<noteq> 0"
  shows "alo \<le> i \<and> i + k \<le> ahi \<and> blo \<le> j \<and> j + k \<le> bhi"
proof -
  have "match_in alo (max alo ahi) blo bhi (flm_rows a b blo bhi alo ahi ((alo, blo, 0), Map.empty))"
    by (rule flm_rows_inv) (simp_all add: row_ok_empty match_in_def)
  then have "match_in alo (max alo ahi) blo bhi (find_longest_match a b alo ahi blo bhi)"
    unfolding find_longest_match_def by (intro extend_right_inv extend_left_inv)
  then show ?thesis using assms by (auto simp: match_in_def max_def split: if_splits)
qed

subsection \<open>Matching blocks, opcodes and ratio\<close>

text \<open>
  \<open>get_matching_blocks\<close>: the work list \<open>queue\<close> is used as a stack (\<open>pop()\<close> takes the
  region appended last); its top is the head of the list. \<open>acc\<close> is \<open>matching_blocks\<close>.
\<close>

function gmb_loop ::
  "'a list \<Rightarrow> 'a list \<Rightarrow> (nat \<times> nat \<times> nat \<times> nat) list \<Rightarrow> match list \<Rightarrow> match list"
where
  "gmb_loop a b [] acc = acc"
| "gmb_loop a b ((alo, ahi, blo, bhi) # queue) acc =
     (case find_longest_match a b alo ahi blo bhi of (i, j, k) \<Rightarrow>
        if k \<noteq> 0
        then gmb_loop a b
               ((if i + k < ahi \<and> j + k < bhi then [(i + k, ahi, j + k, bhi)] else [])
                @ (if alo < i \<and> blo < j then [(alo, i, blo, j)] else [])
                @ queue)
               (acc @ [(i, j, k)])
        else gmb_loop a b queue acc)"
  by pat_completeness auto
termination
proof (relation "measure (\<lambda>(a, b, queue, acc). sum_list (map (\<lambda>(alo, ahi, blo, bhi). 2 * (ahi - alo) + 1) queue))", goal_cases)
  case 1
  then show ?case by simp
next
  case (2 a b alo ahi blo bhi queue acc i y j k)
  then have "find_longest_match a b alo ahi blo bhi = (i, j, k)" by simp
  from find_longest_match_bounds[OF this \<open>k \<noteq> 0\<close>] \<open>k \<noteq> 0\<close>
  show ?case by auto
next
  case 3
  then show ?case by simp
qed


text \<open>The loop that joins adjacent blocks; \<open>(i1, j1, k1)\<close> is the block being grown.\<close>

fun collapse :: "match \<Rightarrow> match list \<Rightarrow> match list" where
  "collapse (i1, j1, k1) [] = (if k1 \<noteq> 0 then [(i1, j1, k1)] else [])"
| "collapse (i1, j1, k1) ((i2, j2, k2) # ms) =
     (if i1 + k1 = i2 \<and> j1 + k1 = j2 then collapse (i1, j1, k1 + k2) ms
      else (if k1 \<noteq> 0 then [(i1, j1, k1)] else []) @ collapse (i2, j2, k2) ms)"

definition get_matching_blocks :: "'a list \<Rightarrow> 'a list \<Rightarrow> match list" where
  "get_matching_blocks a b =
     collapse (0, 0, 0) (sort (gmb_loop a b [(0, length a, 0, length b)] []))
     @ [(length a, length b, 0)]"

text \<open>
  \<open>get_opcodes\<close>: the tags are the strings \<open>'replace'\<close>, \<open>'delete'\<close>, \<open>'insert'\<close> and
  \<open>'equal'\<close> in Python; no other tag is produced.
\<close>

datatype tag = Replace | Delete | Insert | Equal

type_synonym opcode = "tag \<times> nat \<times> nat \<times> nat \<times> nat"

fun opcodes_loop :: "nat \<Rightarrow> nat \<Rightarrow> match list \<Rightarrow> opcode list" where
  "opcodes_loop i j [] = []"
| "opcodes_loop i j ((ai, bj, sz) # ms) =
     (if i < ai \<and> j < bj then [(Replace, i, ai, j, bj)]
      else if i < ai then [(Delete, i, ai, j, bj)]
      else if j < bj then [(Insert, i, ai, j, bj)]
      else [])
     @ (if sz \<noteq> 0 then [(Equal, ai, ai + sz, bj, bj + sz)] else [])
     @ opcodes_loop (ai + sz) (bj + sz) ms"

definition get_opcodes :: "'a list \<Rightarrow> 'a list \<Rightarrow> opcode list" where
  "get_opcodes a b = opcodes_loop 0 0 (get_matching_blocks a b)"

text \<open>
  \<open>ratio\<close> returns the float \<open>2.0 * matches / length\<close>, or \<open>1.0\<close> for two empty
  sequences. The model returns the exact quotient as a rational number. The source compares
  ratios with each other and with the threshold 0.5. Rounding to the nearest float is
  monotone and 0.5 is a float, so a comparison with 0.5 has the same result on the floats
  as on the quotients, for sequences below \<open>2^53\<close> elements; two different quotients
  round to different floats as long as the product of their denominators is below
  \<open>2^53\<close>, which covers texts of up to some \<open>10^7\<close> characters.
\<close>

definition ratio :: "'a list \<Rightarrow> 'a list \<Rightarrow> rat" where
  "ratio a b =
     (let matches = sum_list (map (\<lambda>(i, j, k). k) (get_matching_blocks a b));
          len = length a + length b
      in if len \<noteq> 0 then 2 * of_nat matches / of_nat len else 1)"

section \<open>Diff engine (app/services/differ.py)\<close>

text \<open>A Python slice \<open>xs[i:j]\<close> with \<open>0 \<le> i\<close>; \<open>max(0, i1-2)\<close> is \<open>i1 - 2\<close> on \<open>nat\<close>.\<close>

definition py_slice :: "'a list \<Rightarrow> nat \<Rightarrow> nat \<Rightarrow> 'a list" where
  "py_slice xs i j = drop i (take j xs)"

text \<open>
  \<open>get_word_level_diff\<close>: what one opcode adds to \<open>diff_parts\<close> and to \<open>word_changes\<close>.
\<close>

fun wld_opcode :: "string list \<Rightarrow> string list \<Rightarrow> opcode \<Rightarrow> string list \<times> WordChange list" where
  "wld_opcode orig_words mod_words (Equal, i1, i2, j1, j2) = (py_slice orig_words i1 i2, [])"
| "wld_opcode orig_words mod_words (Delete, i1, i2, j1, j2) =
     (let deleted = py_slice orig_words i1 i2;
          context_before = py_join '' '' (py_slice orig_words (i1 - 2) i1);
          context_after = py_join '' '' (py_slice orig_words i2 (i2 + 2));
          ctx = py_strip (context_before @ '' [DELETED] '' @ context_after)
      in ([''[-'' @ py_join '' '' deleted @ ''-]''],
          [\<lparr>wc_change_type = ''deleted'', old_text = py_join '' '' deleted, new_text = '''',
            wc_context = ctx\<rparr>]))"
| "wld_opcode orig_words mod_words (Insert, i1, i2, j1, j2) =
     (let added = py_slice mod_words j1 j2;
          context_before = py_join '' '' (py_slice mod_words (j1 - 2) j1);
          context_after = py_join '' '' (py_slice mod_words j2 (j2 + 2));
          ctx = py_strip (context_before @ '' [ADDED] '' @ context_after)
      in ([''[+'' @ py_join '' '' added @ ''+]''],
          [\<lparr>wc_change_type = ''added'', old_text = '''', new_text = py_join '' '' added,
            wc_context = ctx\<rparr>]))"
| "wld_opcode orig_words mod_words (Replace, i1, i2, j1, j2) =
     (let old = py_slice orig_words i1 i2;
          new = py_slice mod_words j1 j2;
          context_before = py_join '' '' (py_slice orig_words (i1 - 2) i1);
          context_after = py_join '' '' (py_slice orig_words i2 (i2 + 2));
          ctx = py_strip (context_before @ '' [REPLACED] '' @ context_after)
      in ([''[-'' @ py_join '' '' old @ ''-]'', ''[+'' @ py_join '' '' new @ ''+]''],
          [\<lparr>wc_change_type = ''replaced'', old_text = py_join '' '' old,
            new_text = py_join '' '' new, wc_context = ctx\<rparr>]))"

definition get_word_level_diff :: "string \<Rightarrow> string \<Rightarrow> string \<times> WordChange list" where
  "get_word_level_diff original_text modified_text =
     (let orig_words = py_split original_text;
          mod_words = py_split modified_text;
          steps = map (wld_opcode orig_words mod_words) (get_opcodes orig_words mod_words)
      in (py_join '' '' (concat (map fst steps)), concat (map snd steps)))"

text \<open>
  \<open>_match_similar_blocks\<close> returns a list of dictionaries with the keys \<open>type\<close>, \<open>v1\<close>,
  \<open>v2\<close>, \<open>similarity\<close>, \<open>diff_text\<close> and \<open>word_changes\<close>; \<open>type\<close> is one of three strings
  and decides which of \<open>v1\<close>, \<open>v2\<close> and \<open>similarity\<close> are \<open>None\<close>. Each constructor below
  carries the entries that are not \<open>None\<close>, in the order of the keys.
\<close>

datatype block_match =
    Modified_match ContentBlock ContentBlock rat string "WordChange list"
  | Deleted_match ContentBlock string "WordChange list"
  | Added_match ContentBlock string "WordChange list"

definition deleted_match :: "ContentBlock \<Rightarrow> block_match" where
  "deleted_match b1 =
     Deleted_match b1 (''[-'' @ content b1 @ ''-]'')
       [\<lparr>wc_change_type = ''deleted'', old_text = content b1, new_text = '''',
         wc_context = ''Entire block deleted''\<rparr>]"

definition added_match :: "ContentBlock \<Rightarrow> block_match" where
  "added_match b2 =
     Added_match b2 (''[+'' @ content b2 @ ''+]'')
       [\<lparr>wc_change_type = ''added'', old_text = '''', new_text = content b2,
         wc_context = ''Entire block added''\<rparr>]"

definition modified_match :: "ContentBlock \<Rightarrow> ContentBlock \<Rightarrow> rat \<Rightarrow> block_match" where
  "modified_match b1 b2 best_sim =
     (case get_word_level_diff (content b1) (content b2) of
        (dtext, wchanges) \<Rightarrow> Modified_match b1 b2 best_sim dtext wchanges)"

definition enumerate_list :: "'a list \<Rightarrow> (nat \<times> 'a) list" where
  "enumerate_list xs = zip [0..<length xs] xs"

text \<open>
  The inner loop over \<open>enumerate(v2_blocks)\<close>, with the state \<open>(best_match, best_sim)\<close>;
  it starts from \<open>(None, 0)\<close>.
\<close>

fun best_v2 ::
  "ContentBlock \<Rightarrow> nat set \<Rightarrow> (nat \<times> ContentBlock) list
   \<Rightarrow> (nat \<times> ContentBlock) option \<times> rat \<Rightarrow> (nat \<times> ContentBlock) option \<times> rat"
where
  "best_v2 b1 used_v2 [] st = st"
| "best_v2 b1 used_v2 ((idx, b2) # rest) (best_match, best_sim) =
     (if idx \<in> used_v2 then best_v2 b1 used_v2 rest (best_match, best_sim)
      else
        let sim = ratio (content b1) (content b2)
        in if best_sim < sim then best_v2 b1 used_v2 rest (Some (idx, b2), sim)
           else best_v2 b1 used_v2 rest (best_match, best_sim))"

text \<open>The loop over \<open>v1_blocks\<close>, with the state \<open>(results, used_v2)\<close>.\<close>

fun match_v1 ::
  "rat \<Rightarrow> ContentBlock list \<Rightarrow> ContentBlock list \<Rightarrow> block_match list \<times> nat set
   \<Rightarrow> block_match list \<times> nat set"
where
  "match_v1 threshold v2_blocks [] st = st"
| "match_v1 threshold v2_blocks (b1 # v1_rest) (results, used_v2) =
     (case best_v2 b1 used_v2 (enumerate_list v2_blocks) (None, 0) of
        (Some (idx, b2), best_sim) \<Rightarrow>
          if threshold \<le> best_sim
          then match_v1 threshold v2_blocks v1_rest
                 (results @ [modified_match b1 b2 best_sim], insert idx used_v2)
          else match_v1 threshold v2_blocks v1_rest (results @ [deleted_match b1], used_v2)
      | (None, best_sim) \<Rightarrow>
          match_v1 threshold v2_blocks v1_rest (results @ [deleted_match b1], used_v2))"

definition unmatched_v2 :: "ContentBlock list \<Rightarrow> nat set \<Rightarrow> block_match list" where
  "unmatched_v2 v2_blocks used_v2 =
     map (\<lambda>(idx, b2). added_match b2)
       (filter (\<lambda>(idx, b2). idx \<notin> used_v2) (enumerate_list v2_blocks))"

definition match_similar_blocks :: "ContentBlock list \<Rightarrow> ContentBlock list \<Rightarrow> rat \<Rightarrow> block_match list" where
  "match_similar_blocks v1_blocks v2_blocks threshold =
     (case match_v1 threshold v2_blocks v1_blocks ([], {}) of
        (results, used_v2) \<Rightarrow> results @ unmatched_v2 v2_blocks used_v2)"

text \<open>\<open>diff_documents\<close>: the \<open>Change\<close> objects it builds, then its loops.\<close>

definition block_location :: "ContentBlock \<Rightarrow> string" where
  "block_location block = ''Block '' @ str_int (index block + 1)"

definition deleted_change :: "int \<Rightarrow> ContentBlock \<Rightarrow> Change" where
  "deleted_change cid block =
     \<lparr>change_id = cid, change_type = DELETED, block_type = cb_block_type block,
      location = block_location block, original = Some (content block), modified = None,
      similarity = None, diff_text = Some (''[-'' @ content block @ ''-]''),
      word_changes = Some [\<lparr>wc_change_type = ''deleted'', old_text = content block,
        new_text = '''', wc_context = ''Entire block deleted''\<rparr>]\<rparr>"

definition added_change :: "int \<Rightarrow> ContentBlock \<Rightarrow> Change" where
  "added_change cid block =
     \<lparr>change_id = cid, change_type = ADDED, block_type = cb_block_type block,
      location = block_location block, original = None, modified = Some (content block),
      similarity = None, diff_text = Some (''[+'' @ content block @ ''+]''),
      word_changes = Some [\<lparr>wc_change_type = ''added'', old_text = '''',
        new_text = content block, wc_context = ''Entire block added''\<rparr>]\<rparr>"

fun match_change :: "int \<Rightarrow> block_match \<Rightarrow> Change" where
  "match_change cid (Modified_match v1 v2 sim dt wcs) =
     \<lparr>change_id = cid, change_type = MODIFIED, block_type = cb_block_type v1,
      location = block_location v1, original = Some (content v1), modified = Some (content v2),
      similarity = Some sim, diff_text = Some dt, word_changes = Some wcs\<rparr>"
| "match_change cid (Deleted_match v1 dt wcs) =
     \<lparr>change_id = cid, change_type = DELETED, block_type = cb_block_type v1,
      location = block_location v1, original = Some (content v1), modified = None,
      similarity = None, diff_text = Some dt, word_changes = Some wcs\<rparr>"
| "match_change cid (Added_match v2 dt wcs) =
     \<lparr>change_id = cid, change_type = ADDED, block_type = cb_block_type v2,
      location = block_location v2, original = None, modified = Some (content v2),
      similarity = None, diff_text = Some dt, word_changes = Some wcs\<rparr>"

text \<open>
  Each inner loop appends one change per element and adds one to \<open>change_id\<close>:
  \<open>number_from f cid xs\<close> builds the changes of \<open>xs\<close> with the ids \<open>cid\<close>, \<open>cid + 1\<close>, ...
\<close>

fun number_from :: "(int \<Rightarrow> 'a \<Rightarrow> Change) \<Rightarrow> int \<Rightarrow> 'a list \<Rightarrow> Change list" where
  "number_from f cid [] = []"
| "number_from f cid (x # xs) = f cid x # number_from f (cid + 1) xs"

fun opcode_changes :: "ContentBlock list \<Rightarrow> ContentBlock list \<Rightarrow> int \<Rightarrow> opcode \<Rightarrow> Change list" where
  "opcode_changes blocks_v1 blocks_v2 cid (Equal, i1, i2, j1, j2) = []"
| "opcode_changes blocks_v1 blocks_v2 cid (Delete, i1, i2, j1, j2) =
     number_from deleted_change cid (map (\<lambda>i. blocks_v1 ! i) [i1..<i2])"
| "opcode_changes blocks_v1 blocks_v2 cid (Insert, i1, i2, j1, j2) =
     number_from added_change cid (map (\<lambda>j. blocks_v2 ! j) [j1..<j2])"
| "opcode_changes blocks_v1 blocks_v2 cid (Replace, i1, i2, j1, j2) =
     (let v1_blocks = map (\<lambda>i. blocks_v1 ! i) [i1..<i2];
          v2_blocks = map (\<lambda>j. blocks_v2 ! j) [j1..<j2];
          matched = match_similar_blocks v1_blocks v2_blocks (1 / 2)
      in number_from match_change cid matched)"

text \<open>The loop over the opcodes; \<open>cid\<close> is \<open>change_id\<close> when the opcode is reached.\<close>

fun opcodes_changes :: "ContentBlock list \<Rightarrow> ContentBlock list \<Rightarrow> int \<Rightarrow> opcode list \<Rightarrow> Change list" where
  "opcodes_changes blocks_v1 blocks_v2 cid [] = []"
| "opcodes_changes blocks_v1 blocks_v2 cid (opc # rest) =
     (let changes = opcode_changes blocks_v1 blocks_v2 cid opc
      in changes @ opcodes_changes blocks_v1 blocks_v2 (cid + int (length changes)) rest)"

definition diff_documents :: "ContentBlock list \<Rightarrow> ContentBlock list \<Rightarrow> Change list" where
  "diff_documents blocks_v1 blocks_v2 =
     opcodes_changes blocks_v1 blocks_v2 1
       (get_opcodes (map content blocks_v1) (map content blocks_v2))"

section \<open>Properties of the diff engine\<close>

subsection \<open>Modified edits of a replace run\<close>

text \<open>
  Every \<open>modified\<close> entry marks a new index of \<open>v2_blocks\<close> as used, and every block
  of \<open>v1_blocks\<close> gives one entry.
\<close>

fun is_modified :: "block_match \<Rightarrow> bool" where
  "is_modified (Modified_match v1 v2 sim dt wcs) = True"
| "is_modified (Deleted_match v1 dt wcs) = False"
| "is_modified (Added_match v2 dt wcs) = False"

definition count_modified :: "block_match list \<Rightarrow> nat" where
  "count_modified ms = length (filter is_modified ms)"

lemma best_v2_source:
  "best_v2 b1 used vs st = (Some (idx, b2), s) \<Longrightarrow>
     fst st = Some (idx, b2) \<or> ((idx, b2) \<in> set vs \<and> idx \<notin> used)"
proof (induction vs arbitrary: st)
  case Nil
  then show ?case by simp
next
  case (Cons v vs)
  obtain j b where v: "v = (j, b)" by (cases v)
  obtain bm bs where st: "st = (bm, bs)" by (cases st)
  show ?case
    using Cons.prems Cons.IH[of "(bm, bs)"] Cons.IH[of "(Some (j, b), ratio (content b1) (content b))"]
    by (auto simp: v st Let_def split: if_splits)
qed

lemma enumerate_list_index: "(idx, x) \<in> set (enumerate_list xs) \<Longrightarrow> idx < length xs \<and> xs ! idx = x"
  by (auto simp: enumerate_list_def set_zip)

lemma is_modified_modified_match [simp]: "is_modified (modified_match b1 b2 s)"
  by (simp add: modified_match_def split: prod.splits)

lemma is_modified_deleted_match [simp]: "\<not> is_modified (deleted_match b1)"
  by (simp add: deleted_match_def)

lemma is_modified_added_match [simp]: "\<not> is_modified (added_match b1)"
  by (simp add: added_match_def)

lemma match_v1_inv:
  assumes "match_v1 t v2 v1 (results, used) = (results', used')"
    and "finite used" and "used \<subseteq> {..<length v2}"
  shows "finite used' \<and> used' \<subseteq> {..<length v2}
       \<and> count_modified results' + card used = count_modified results + card used'
       \<and> count_modified results' \<le> count_modified results + length v1
       \<and> length results' = length results + length v1"
  using assms
proof (induction v1 arbitrary: results used)
  case Nil
  then show ?case by simp
next
  case (Cons b1 v1)
  obtain bm bs where bv: "best_v2 b1 used (enumerate_list v2) (None, 0) = (bm, bs)"
    by (cases "best_v2 b1 used (enumerate_list v2) (None, 0)")
  show ?case
  proof (cases "\<exists>idx b2. bm = Some (idx, b2) \<and> t \<le> bs")
    case True
    then obtain idx b2 where bm: "bm = Some (idx, b2)" and t: "t \<le> bs" by blast
    from best_v2_source[OF bv[unfolded bm]] have new: "idx \<notin> used" "idx < length v2"
      using enumerate_list_index[of idx b2 v2] by auto
    have step: "match_v1 t v2 v1 (results @ [modified_match b1 b2 bs], insert idx used) = (results', used')"
      using Cons.prems(1) bv bm t by simp
    have "finite (insert idx used)" "insert idx used \<subseteq> {..<length v2}"
      using Cons.prems new by auto
    from Cons.IH[OF step this] show ?thesis
      using new Cons.prems(2) by (simp add: count_modified_def)
  next
    case False
    then have step: "match_v1 t v2 v1 (results @ [deleted_match b1], used) = (results', used')"
      using Cons.prems(1) bv by (auto split: option.splits prod.splits if_splits)
    from Cons.IH[OF step Cons.prems(2,3)] show ?thesis
      by (simp add: count_modified_def)
  qed
qed

lemma count_modified_unmatched [simp]: "count_modified (unmatched_v2 v2 used) = 0"
  by (simp add: count_modified_def unmatched_v2_def split: prod.splits)

lemma count_modified_match_similar_blocks:
  "count_modified (match_similar_blocks v1 v2 t) \<le> min (length v1) (length v2)"
proof -
  obtain results used where m: "match_v1 t v2 v1 ([], {}) = (results, used)"
    by (cases "match_v1 t v2 v1 ([], {})")
  from match_v1_inv[OF m] have inv: "finite used" "used \<subseteq> {..<length v2}"
    "count_modified results = card used" "count_modified results \<le> length v1"
    by (simp_all add: count_modified_def)
  have "card used \<le> card {..<length v2}"
    using inv(2) by (intro card_mono) auto
  then have "count_modified results \<le> length v2" using inv(3) by simp
  moreover have "count_modified (match_similar_blocks v1 v2 t) = count_modified results"
    using count_modified_unmatched[of v2 used] by (simp add: match_similar_blocks_def m count_modified_def)
  ultimately show ?thesis using inv(4) by simp
qed

lemma change_type_match_change: "(change_type (match_change cid m) = MODIFIED) = is_modified m"
  by (cases m) simp_all

lemma filter_number_from_match:
  "length (filter (\<lambda>c. change_type c = MODIFIED) (number_from match_change cid ms)) = count_modified ms"
  by (induction ms arbitrary: cid) (simp_all add: count_modified_def change_type_match_change)

text \<open>
  Claim C9. For all block lists, the entries of type \<open>modified\<close> that
  \<open>_match_similar_blocks\<close> returns are at most as many as the blocks of \<open>v1_blocks\<close> and
  at most as many as the blocks of \<open>v2_blocks\<close>; hence the changes of type \<open>MODIFIED\<close>
  that \<open>diff_documents\<close> appends for a \<open>replace\<close> opcode \<open>(i1, i2, j1, j2)\<close> are at most
  \<open>min (i2 - i1) (j2 - j1)\<close>.
\<close>

theorem modified_per_replace_run:
  "count_modified (match_similar_blocks v1_blocks v2_blocks threshold)
     \<le> min (length v1_blocks) (length v2_blocks)
   \<and> length (filter (\<lambda>c. change_type c = MODIFIED)
        (opcode_changes blocks_v1 blocks_v2 cid (Replace, i1, i2, j1, j2)))
     \<le> min (i2 - i1) (j2 - j1)"
proof -
  have "length (filter (\<lambda>c. change_type c = MODIFIED)
        (opcode_changes blocks_v1 blocks_v2 cid (Replace, i1, i2, j1, j2)))
     \<le> min (length (map (\<lambda>i. blocks_v1 ! i) [i1..<i2])) (length (map (\<lambda>j. blocks_v2 ! j) [j1..<j2]))"
    by (simp only: opcode_changes.simps Let_def filter_number_from_match
        count_modified_match_similar_blocks)
  then show ?thesis using count_modified_match_similar_blocks by simp
qed

subsection \<open>A sequence against itself\<close>

text \<open>
  \<open>run_len a i\<close> is the number of consecutive elements ending at position \<open>i\<close> that have
  an entry in \<open>b2j\<close> (are not popular). When \<open>a\<close> is matched against itself, the table row
  of \<open>i\<close> holds exactly \<open>run_len a i\<close> on the diagonal and no more anywhere else, so the
  best match is always found on the diagonal.
\<close>

fun run_len :: "'a list \<Rightarrow> nat \<Rightarrow> nat" where
  "run_len a 0 = (if b2j a (a ! 0) = [] then 0 else 1)"
| "run_len a (Suc i) = (if b2j a (a ! Suc i) = [] then 0 else Suc (run_len a i))"

lemma run_len_le: "run_len a i \<le> Suc i"
  by (induction i) auto

lemma b2j_cases: "b2j b x = [] \<or> b2j b x = filter (\<lambda>j. b ! j = x) [0..<length b]"
  by (simp add: b2j_def Let_def)

lemma b2j_sorted: "sorted_wrt (<) (b2j b x)"
  by (simp add: b2j_def Let_def sorted_wrt_filter)

lemma b2j_set: "j \<in> set (b2j b x) \<Longrightarrow> j < length b \<and> b ! j = x"
  using b2j_cases[of b x] by auto

lemma b2j_self: "i < length b \<Longrightarrow> b2j b (b ! i) \<noteq> [] \<Longrightarrow> i \<in> set (b2j b (b ! i))"
  using b2j_cases[of b "b ! i"] by auto

definition self_row :: "'a list \<Rightarrow> nat \<Rightarrow> (nat \<rightharpoonup> nat) \<Rightarrow> bool" where
  "self_row a i row = (\<forall>j v. row j = Some v \<longrightarrow> v \<le> run_len a j \<and> v \<le> run_len a i)"

definition self_diag :: "'a list \<Rightarrow> nat \<Rightarrow> (nat \<rightharpoonup> nat) \<Rightarrow> bool" where
  "self_diag a i row = (row i = (if run_len a i = 0 then None else Some (run_len a i)))"

definition self_best :: "'a list \<Rightarrow> nat \<Rightarrow> match \<Rightarrow> bool" where
  "self_best a i m =
     (case m of (bi, bj, bs) \<Rightarrow> bi = bj \<and> bi + bs \<le> i \<and> (\<forall>i' < i. run_len a i' \<le> bs))"

lemma j2lenget_self:
  assumes "i = 0 \<longrightarrow> j2len = Map.empty"
    and "0 < i \<longrightarrow> self_row a (i - 1) j2len \<and> self_diag a (i - 1) j2len"
    and "b2j a (a ! i) \<noteq> []" and "a ! j = a ! i"
  shows "j2lenget j2len j + 1 \<le> run_len a j" and "j2lenget j2len j + 1 \<le> run_len a i"
    and "j2lenget j2len i + 1 = run_len a i"
proof -
  have nz_j: "b2j a (a ! j) \<noteq> []" using assms(3,4) by simp
  show "j2lenget j2len j + 1 \<le> run_len a j"
  proof (cases j)
    case 0
    then show ?thesis using nz_j by (simp add: j2lenget_def)
  next
    case (Suc j')
    then show ?thesis using nz_j assms(1,2)
      by (cases "i = 0") (auto simp: j2lenget_def self_row_def split: option.splits)
  qed
  show "j2lenget j2len j + 1 \<le> run_len a i"
  proof (cases i)
    case 0
    then show ?thesis using assms(1,3) by (simp add: j2lenget_def)
  next
    case (Suc i')
    then show ?thesis using assms(2,3)
      by (auto simp: j2lenget_def self_row_def split: option.splits)
  qed
  show "j2lenget j2len i + 1 = run_len a i"
  proof (cases i)
    case 0
    then show ?thesis using assms(3) by (simp add: j2lenget_def)
  next
    case (Suc i')
    then show ?thesis using assms(2,3)
      by (auto simp: j2lenget_def self_diag_def split: option.splits if_splits)
  qed
qed

lemma flm_inner_self:
  assumes prev: "i = 0 \<longrightarrow> j2len = Map.empty"
      "0 < i \<longrightarrow> self_row a (i - 1) j2len \<and> self_diag a (i - 1) j2len"
    and np: "b2j a (a ! i) \<noteq> []"
    and js: "sorted_wrt (<) js" "\<forall>j \<in> set js. j < length a \<and> a ! j = a ! i"
    and best: "bi + bs \<le> Suc i" "\<forall>i' < i. run_len a i' \<le> bs"
    and new: "self_row a i new"
    and seen: "i \<in> set js \<or> (run_len a i \<le> bs \<and> new i = Some (run_len a i))"
  shows "\<exists>bi' bs' new'. flm_inner 0 (length a) i j2len js ((bi, bi, bs), new) = ((bi', bi', bs'), new')
           \<and> bi' + bs' \<le> Suc i \<and> (\<forall>i' < Suc i. run_len a i' \<le> bs')
           \<and> self_row a i new' \<and> new' i = Some (run_len a i)"
  using js best new seen
proof (induction js arbitrary: bi bs new)
  case Nil
  then show ?case by (auto simp: less_Suc_eq)
next
  case (Cons j js)
  have j: "j < length a" "a ! j = a ! i" using Cons.prems(2) by auto
  define k where "k = j2lenget j2len j + 1"
  have kj: "k \<le> run_len a j" and ki: "k \<le> run_len a i"
    using j2lenget_self(1,2)[OF prev np j(2)] by (simp_all add: k_def)
  have kii: "j = i \<Longrightarrow> k = run_len a i"
    using j2lenget_self(3)[OF prev np j(2)] by (simp add: k_def)
  have after: "\<forall>j' \<in> set js. j < j'" using Cons.prems(1) by simp
  define bi' where "bi' = (if bs < k then i + 1 - k else bi)"
  define bs' where "bs' = (if bs < k then k else bs)"
  have upd: "bs < k \<Longrightarrow> j = i"
  proof (rule ccontr)
    assume lt: "bs < k" and ne: "j \<noteq> i"
    show False
    proof (cases "j < i")
      case True
      then show ?thesis using Cons.prems(4) kj lt by force
    next
      case False
      then have "i < j" using ne by simp
      then have "i \<notin> set (j # js)" using after by auto
      then show ?thesis using Cons.prems(6) ki lt by simp
    qed
  qed
  have eq: "flm_inner 0 (length a) i j2len (j # js) ((bi, bi, bs), new)
         = flm_inner 0 (length a) i j2len js ((bi', bi', bs'), new(j \<mapsto> k))"
    using j(1) upd by (auto simp: k_def bi'_def bs'_def Let_def)
  have b1: "bi' + bs' \<le> Suc i"
    using Cons.prems(3) ki run_len_le[of a i] by (auto simp: bi'_def bs'_def)
  have b2: "\<forall>i' < i. run_len a i' \<le> bs'"
    using Cons.prems(4) by (auto simp: bs'_def intro: le_trans)
  have n': "self_row a i (new(j \<mapsto> k))"
    using Cons.prems(5) kj ki by (auto simp: self_row_def)
  have s': "i \<in> set js \<or> (run_len a i \<le> bs' \<and> (new(j \<mapsto> k)) i = Some (run_len a i))"
  proof (cases "j = i")
    case True
    then show ?thesis using kii by (auto simp: bs'_def)
  next
    case False
    then show ?thesis using Cons.prems(6) by (auto simp: bs'_def)
  qed
  have srt: "sorted_wrt (<) js" and mem: "\<forall>j \<in> set js. j < length a \<and> a ! j = a ! i"
    using Cons.prems(1,2) by simp_all
  show ?case unfolding eq by (rule Cons.IH[OF srt mem b1 b2 n' s'])
qed

lemma flm_rows_self:
  assumes "i \<le> length a"
    and "i = 0 \<longrightarrow> j2len = Map.empty"
    and "0 < i \<longrightarrow> self_row a (i - 1) j2len \<and> self_diag a (i - 1) j2len"
    and "self_best a i best"
  shows "self_best a (length a) (flm_rows a a 0 (length a) i (length a) (best, j2len))"
  using assms
proof (induction "length a - i" arbitrary: i best j2len)
  case 0
  then have "\<not> i < length a" "i = length a" by simp_all
  then have "flm_rows a a 0 (length a) i (length a) (best, j2len) = best"
    by (subst flm_rows.simps) simp
  then show ?case using "0.prems"(4) \<open>i = length a\<close> by simp
next
  case (Suc d)
  note prems = Suc.prems
  have True: "i < length a" using Suc.hyps(2) by arith
  show ?case
  proof -
    obtain bi bs where best: "best = (bi, bi, bs)" "bi + bs \<le> i" "\<forall>i' < i. run_len a i' \<le> bs"
      using prems(4) by (cases best) (auto simp: self_best_def)
    have "\<exists>bi' bs' new'. flm_inner 0 (length a) i j2len (b2j a (a ! i)) (best, Map.empty) = ((bi', bi', bs'), new')
           \<and> bi' + bs' \<le> Suc i \<and> (\<forall>i' < Suc i. run_len a i' \<le> bs')
           \<and> self_row a i new' \<and> self_diag a i new'"
    proof (cases "b2j a (a ! i) = []")
      case True
      then have "run_len a i = 0" by (cases i) simp_all
      then show ?thesis using True best
        by (auto simp: self_row_def self_diag_def less_Suc_eq)
    next
      case False
      have rl: "run_len a i \<noteq> 0" using False by (cases i) simp_all
      have "\<exists>bi' bs' new'. flm_inner 0 (length a) i j2len (b2j a (a ! i)) ((bi, bi, bs), Map.empty) = ((bi', bi', bs'), new')
           \<and> bi' + bs' \<le> Suc i \<and> (\<forall>i' < Suc i. run_len a i' \<le> bs')
           \<and> self_row a i new' \<and> new' i = Some (run_len a i)"
      proof -
        have m: "\<forall>j \<in> set (b2j a (a ! i)). j < length a \<and> a ! j = a ! i"
          using b2j_set[of _ a "a ! i"] by blast
        have b1: "bi + bs \<le> Suc i" using best(2) by simp
        have e: "self_row a i Map.empty" by (simp add: self_row_def)
        have sn: "i \<in> set (b2j a (a ! i)) \<or> run_len a i \<le> bs \<and> Map.empty i = Some (run_len a i)"
          using b2j_self[OF True False] by simp
        show ?thesis
          by (rule flm_inner_self[where a = a and i = i and ?j2len = j2len and js = "b2j a (a ! i)"
                and bi = bi and bs = bs and new = Map.empty,
                OF prems(2) prems(3) False b2j_sorted m b1 best(3) e sn])
      qed
      then show ?thesis using rl by (auto simp: best(1) self_diag_def)
    qed
    then obtain bi' bs' new' where
      st: "flm_inner 0 (length a) i j2len (b2j a (a ! i)) (best, Map.empty) = ((bi', bi', bs'), new')"
      and inv: "bi' + bs' \<le> Suc i" "\<forall>i' < Suc i. run_len a i' \<le> bs'" "self_row a i new'" "self_diag a i new'"
      by blast
    have "self_best a (length a) (flm_rows a a 0 (length a) (Suc i) (length a) ((bi', bi', bs'), new'))"
    proof (rule Suc.hyps(1))
      show "d = length a - Suc i" using Suc.hyps(2) by simp
      show "Suc i \<le> length a" using True by simp
      show "Suc i = 0 \<longrightarrow> new' = Map.empty" by simp
      show "0 < Suc i \<longrightarrow> self_row a (Suc i - 1) new' \<and> self_diag a (Suc i - 1) new'"
        using inv(3,4) by simp
      show "self_best a (Suc i) (bi', bi', bs')" using inv(1,2) by (simp add: self_best_def)
    qed
    moreover have "flm_rows a a 0 (length a) i (length a) (best, j2len)
        = flm_rows a a 0 (length a) (Suc i) (length a) ((bi', bi', bs'), new')"
      using True st by (subst flm_rows.simps) simp
    ultimately show ?thesis by simp
  qed
qed


lemma extend_left_self: "extend_left a a 0 0 (bi, bi, bs) = (0, 0, bi + bs)"
proof (induction bi arbitrary: bs)
  case 0
  show ?case by (subst extend_left.simps) simp
next
  case (Suc bi)
  then show ?case by (subst extend_left.simps) simp
qed

lemma extend_right_self: "s \<le> n \<Longrightarrow> extend_right a a n n (0, 0, s) = (0, 0, n)"
proof (induction "n - s" arbitrary: s)
  case 0
  then have "\<not> s < n" by simp
  then show ?case using "0.prems" by (subst extend_right.simps) simp
next
  case (Suc d)
  have lt: "s < n" using Suc.hyps(2) by arith
  from Suc have "extend_right a a n n (0, 0, s + 1) = (0, 0, n)" by simp
  then show ?case using lt by (subst extend_right.simps) simp
qed

lemma find_longest_match_self: "find_longest_match a a 0 (length a) 0 (length a) = (0, 0, length a)"
proof -
  have "self_best a (length a) (flm_rows a a 0 (length a) 0 (length a) ((0, 0, 0), Map.empty))"
    by (rule flm_rows_self) (simp_all add: self_best_def)
  then obtain bi bs where r: "flm_rows a a 0 (length a) 0 (length a) ((0, 0, 0), Map.empty) = (bi, bi, bs)"
    and le: "bi + bs \<le> length a"
    by (cases "flm_rows a a 0 (length a) 0 (length a) ((0, 0, 0), Map.empty)") (auto simp: self_best_def)
  show ?thesis
    by (simp add: find_longest_match_def r extend_left_self extend_right_self le)
qed

lemma get_matching_blocks_self:
  "get_matching_blocks a a = (if a = [] then [] else [(0, 0, length a)]) @ [(length a, length a, 0)]"
  by (simp add: get_matching_blocks_def find_longest_match_self)

lemma get_opcodes_self:
  "get_opcodes a a = (if a = [] then [] else [(Equal, 0, length a, 0, length a)])"
  by (simp add: get_opcodes_def get_matching_blocks_self)

text \<open>
  Claim C8. For every block list \<open>U\<close>, \<open>diff_documents(U, U)\<close> is the empty list: the only
  opcode of a sequence against itself is \<open>equal\<close> (none for the empty sequence), also when
  the sequence has 200 elements or more and some of them are popular.
\<close>

theorem diff_documents_self: "diff_documents U U = []"
  by (simp add: diff_documents_def get_opcodes_self)

subsection \<open>The threshold of the intra-replace matching\<close>

text \<open>
  \<open>unconsumed_sims b1 used_v2 v2_blocks\<close> lists the similarity of \<open>b1\<close> to every block of
  \<open>v2_blocks\<close> whose index is not in \<open>used_v2\<close>; \<open>used_before t v1_blocks v2_blocks k\<close> is
  the set \<open>used_v2\<close> when the loop reaches the block \<open>k\<close> of \<open>v1_blocks\<close> (after the last
  block for \<open>k = len(v1_blocks)\<close>).
\<close>

definition unconsumed_sims :: "ContentBlock \<Rightarrow> nat set \<Rightarrow> ContentBlock list \<Rightarrow> rat list" where
  "unconsumed_sims b1 used_v2 v2_blocks =
     map (\<lambda>(idx, b2). ratio (content b1) (content b2))
       (filter (\<lambda>(idx, b2). idx \<notin> used_v2) (enumerate_list v2_blocks))"

definition used_before :: "rat \<Rightarrow> ContentBlock list \<Rightarrow> ContentBlock list \<Rightarrow> nat \<Rightarrow> nat set" where
  "used_before threshold v1_blocks v2_blocks k =
     snd (match_v1 threshold v2_blocks (take k v1_blocks) ([], {}))"

lemma best_v2_spec:
  "best_v2 b1 used vs (bm, bs) = (bm', bs') \<Longrightarrow>
     bs \<le> bs'
     \<and> (\<forall>(idx, b2) \<in> set vs. idx \<notin> used \<longrightarrow> ratio (content b1) (content b2) \<le> bs')
     \<and> (bs' = bs \<and> bm' = bm
        \<or> bs < bs' \<and> (\<exists>idx b2. bm' = Some (idx, b2) \<and> (idx, b2) \<in> set vs \<and> idx \<notin> used
              \<and> ratio (content b1) (content b2) = bs'))"
proof (induction vs arbitrary: bm bs)
  case Nil
  then show ?case by simp
next
  case (Cons v vs)
  obtain j b where v: "v = (j, b)" by (cases v)
  define r where "r = ratio (content b1) (content b)"
  show ?case
  proof (cases "j \<in> used")
    case True
    then have "best_v2 b1 used vs (bm, bs) = (bm', bs')" using Cons.prems by (simp add: v)
    from Cons.IH[OF this] True show ?thesis by (auto simp: v)
  next
    case False
    show ?thesis
    proof (cases "bs < r")
      case True
      then have "best_v2 b1 used vs (Some (j, b), r) = (bm', bs')"
        using Cons.prems False by (simp add: v r_def)
      from Cons.IH[OF this] True False show ?thesis
        by (fastforce simp: v r_def)
    next
      case nlt: False
      then have "best_v2 b1 used vs (bm, bs) = (bm', bs')"
        using Cons.prems False by (simp add: v r_def)
      from Cons.IH[OF this] nlt False show ?thesis
        by (fastforce simp: v r_def)
    qed
  qed
qed

text \<open>One round of the loop over \<open>v1_blocks\<close>: the entry appended and the new \<open>used_v2\<close>.\<close>

definition match_step :: "rat \<Rightarrow> ContentBlock list \<Rightarrow> ContentBlock \<Rightarrow> nat set \<Rightarrow> block_match \<times> nat set" where
  "match_step threshold v2_blocks b1 used_v2 =
     (case best_v2 b1 used_v2 (enumerate_list v2_blocks) (None, 0) of
        (Some (idx, b2), best_sim) \<Rightarrow>
          if threshold \<le> best_sim then (modified_match b1 b2 best_sim, insert idx used_v2)
          else (deleted_match b1, used_v2)
      | (None, best_sim) \<Rightarrow> (deleted_match b1, used_v2))"

lemma match_v1_step:
  "match_v1 t v2 (b1 # rest) (results, used)
     = match_v1 t v2 rest (results @ [fst (match_step t v2 b1 used)], snd (match_step t v2 b1 used))"
  by (simp add: match_step_def split: prod.splits option.splits)

lemma match_v1_append:
  "match_v1 t v2 (xs @ ys) st = match_v1 t v2 ys (match_v1 t v2 xs st)"
proof (induction xs arbitrary: st)
  case Nil
  then show ?case by simp
next
  case (Cons x xs)
  obtain results used where st: "st = (results, used)" by (cases st)
  show ?case unfolding st append_Cons match_v1_step by (rule Cons.IH)
qed

lemma match_v1_results:
  "\<exists>new. fst (match_v1 t v2 v1 (results, used)) = results @ new \<and> length new = length v1"
proof (induction v1 arbitrary: results used)
  case Nil
  then show ?case by simp
next
  case (Cons b1 v1)
  obtain new where "fst (match_v1 t v2 v1 (results @ [fst (match_step t v2 b1 used)], snd (match_step t v2 b1 used)))
      = (results @ [fst (match_step t v2 b1 used)]) @ new" "length new = length v1"
    using Cons.IH by blast
  then show ?case unfolding match_v1_step by (intro exI[of _ "fst (match_step t v2 b1 used) # new"]) simp
qed

lemma match_v1_nth:
  assumes "k < length v1"
  shows "fst (match_v1 t v2 v1 ([], {})) ! k = fst (match_step t v2 (v1 ! k) (used_before t v1 v2 k))"
proof -
  obtain rk uk where pre: "match_v1 t v2 (take k v1) ([], {}) = (rk, uk)"
    by (cases "match_v1 t v2 (take k v1) ([], {})")
  have len: "length rk = k"
    using match_v1_results[of t v2 "take k v1" "[]" "{}"] assms by (auto simp: pre)
  have split: "v1 = take k v1 @ v1 ! k # drop (Suc k) v1"
    using assms by (simp add: id_take_nth_drop)
  have "match_v1 t v2 v1 ([], {}) = match_v1 t v2 (v1 ! k # drop (Suc k) v1) (rk, uk)"
    by (subst split) (simp only: match_v1_append pre)
  also have "\<dots> = match_v1 t v2 (drop (Suc k) v1)
      (rk @ [fst (match_step t v2 (v1 ! k) uk)], snd (match_step t v2 (v1 ! k) uk))"
    by (rule match_v1_step)
  finally have "\<exists>new. fst (match_v1 t v2 v1 ([], {})) = (rk @ [fst (match_step t v2 (v1 ! k) uk)]) @ new"
    using match_v1_results[of t v2 "drop (Suc k) v1" "rk @ [fst (match_step t v2 (v1 ! k) uk)]"]
    by auto
  then show ?thesis using len by (auto simp: used_before_def pre nth_append)
qed

lemma match_similar_blocks_nth:
  assumes "k < length v1"
  shows "match_similar_blocks v1 v2 t ! k = fst (match_step t v2 (v1 ! k) (used_before t v1 v2 k))"
proof -
  have "length (fst (match_v1 t v2 v1 ([], {}))) = length v1"
    using match_v1_results[of t v2 v1 "[]" "{}"] by auto
  moreover obtain results used where m: "match_v1 t v2 v1 ([], {}) = (results, used)"
    by (cases "match_v1 t v2 v1 ([], {})")
  ultimately show ?thesis
    using assms match_v1_nth[OF assms, of t v2]
    by (simp add: match_similar_blocks_def nth_append)
qed

lemma match_similar_blocks_added:
  "drop (length v1) (match_similar_blocks v1 v2 t) = unmatched_v2 v2 (used_before t v1 v2 (length v1))"
proof -
  have "length (fst (match_v1 t v2 v1 ([], {}))) = length v1"
    using match_v1_results[of t v2 v1 "[]" "{}"] by auto
  moreover obtain results used where m: "match_v1 t v2 v1 ([], {}) = (results, used)"
    by (cases "match_v1 t v2 v1 ([], {})")
  ultimately show ?thesis
    by (simp add: match_similar_blocks_def used_before_def)
qed

lemma unconsumed_sims_mem:
  "(idx, b2) \<in> set (enumerate_list v2) \<Longrightarrow> idx \<notin> used \<Longrightarrow>
     ratio (content b1) (content b2) \<in> set (unconsumed_sims b1 used v2)"
  by (force simp: unconsumed_sims_def)

lemma match_step_half:
  assumes "unconsumed_sims b1 used v2 \<noteq> []" and "Max (set (unconsumed_sims b1 used v2)) = 1 / 2"
  shows "\<exists>idx b2. idx < length v2 \<and> idx \<notin> used \<and> v2 ! idx = b2
           \<and> ratio (content b1) (content b2) = 1 / 2
           \<and> match_step (1 / 2) v2 b1 used = (modified_match b1 b2 (1 / 2), insert idx used)"
proof -
  obtain bm' bs' where bv: "best_v2 b1 used (enumerate_list v2) (None, 0) = (bm', bs')"
    by (cases "best_v2 b1 used (enumerate_list v2) (None, 0)")
  note spec = best_v2_spec[OF bv]
  have "Max (set (unconsumed_sims b1 used v2)) \<in> set (unconsumed_sims b1 used v2)"
    using assms(1) by (intro Max_in) simp_all
  then have "1 / 2 \<in> set (unconsumed_sims b1 used v2)"
    unfolding assms(2) .
  then have ge: "1 / 2 \<le> bs'"
    using spec by (auto simp: unconsumed_sims_def)
  then have "0 < bs'" by simp
  then obtain idx b2 where m: "bm' = Some (idx, b2)" "(idx, b2) \<in> set (enumerate_list v2)"
      "idx \<notin> used" "ratio (content b1) (content b2) = bs'"
    using spec by auto
  have "bs' \<le> 1 / 2"
    using unconsumed_sims_mem[OF m(2,3), of b1] m(4) assms by (metis List.finite_set Max_ge)
  then have eq: "bs' = 1 / 2" using ge by simp
  have ms: "match_step (1 / 2) v2 b1 used = (modified_match b1 b2 (1 / 2), insert idx used)"
    unfolding match_step_def bv m(1) eq by simp
  have r: "ratio (content b1) (content b2) = 1 / 2" using m(4) eq by simp
  show ?thesis
    using ms m(3) r enumerate_list_index[OF m(2)] by blast
qed

lemma match_step_below:
  assumes "\<forall>s \<in> set (unconsumed_sims b1 used v2). s < 1 / 2"
  shows "match_step (1 / 2) v2 b1 used = (deleted_match b1, used)"
proof -
  obtain bm' bs' where bv: "best_v2 b1 used (enumerate_list v2) (None, 0) = (bm', bs')"
    by (cases "best_v2 b1 used (enumerate_list v2) (None, 0)")
  note spec = best_v2_spec[OF bv]
  have "bs' < 1 / 2"
  proof (cases "bs' = 0")
    case True
    then show ?thesis by simp
  next
    case False
    then obtain idx b2 where m: "(idx, b2) \<in> set (enumerate_list v2)"
      "idx \<notin> used" "ratio (content b1) (content b2) = bs'"
      using spec by auto
    then show ?thesis using unconsumed_sims_mem[OF m(1,2), of b1] assms by auto
  qed
  then show ?thesis using bv by (auto simp: match_step_def split: option.splits)
qed

lemma used_before_Suc:
  assumes "k < length v1"
  shows "used_before t v1 v2 (Suc k) = snd (match_step t v2 (v1 ! k) (used_before t v1 v2 k))"
proof -
  obtain rk uk where pre: "match_v1 t v2 (take k v1) ([], {}) = (rk, uk)"
    by (cases "match_v1 t v2 (take k v1) ([], {})")
  have "take (Suc k) v1 = take k v1 @ [v1 ! k]"
    using assms by (simp add: take_Suc_conv_app_nth)
  then show ?thesis
    by (simp add: used_before_def match_v1_append pre match_v1_step del: match_v1.simps(2))
qed

lemma unmatched_v2_empty: "unmatched_v2 v2 {} = map added_match v2"
proof -
  have "map snd (enumerate_list v2) = v2" by (simp add: enumerate_list_def)
  then have "map added_match v2 = map (\<lambda>(idx, b2). added_match b2) (enumerate_list v2)"
    by (metis (no_types, lifting) case_prod_unfold map_map comp_def map_eq_conv)
  then show ?thesis by (simp add: unmatched_v2_def)
qed

lemma match_change_modified:
  "change_type (match_change cid (modified_match b1 b2 s)) = MODIFIED
   \<and> similarity (match_change cid (modified_match b1 b2 s)) = Some s"
  by (simp add: modified_match_def split: prod.splits)

lemma match_change_deleted: "match_change cid (deleted_match b1) = deleted_change cid b1"
  by (simp add: deleted_match_def deleted_change_def)

lemma match_change_added: "match_change cid (added_match b2) = added_change cid b2"
  by (simp add: added_match_def added_change_def)

lemma match_step_cases:
  "match_step t v2 b1 used = (deleted_match b1, used)
   \<or> (\<exists>idx < length v2. idx \<notin> used \<and> t \<le> ratio (content b1) (content (v2 ! idx))
        \<and> match_step t v2 b1 used
            = (modified_match b1 (v2 ! idx) (ratio (content b1) (content (v2 ! idx))),
               insert idx used))"
proof -
  obtain bm' bs' where bv: "best_v2 b1 used (enumerate_list v2) (None, 0) = (bm', bs')"
    by (cases "best_v2 b1 used (enumerate_list v2) (None, 0)")
  from best_v2_spec[OF bv]
  have "bs' = 0 \<and> bm' = None
     \<or> (\<exists>idx b2. bm' = Some (idx, b2) \<and> (idx, b2) \<in> set (enumerate_list v2) \<and> idx \<notin> used
              \<and> ratio (content b1) (content b2) = bs')"
    by blast
  then show ?thesis
  proof
    assume "bs' = 0 \<and> bm' = None"
    then show ?thesis using bv by (simp add: match_step_def)
  next
    assume "\<exists>idx b2. bm' = Some (idx, b2) \<and> (idx, b2) \<in> set (enumerate_list v2) \<and> idx \<notin> used
              \<and> ratio (content b1) (content b2) = bs'"
    then obtain idx b2 where m: "bm' = Some (idx, b2)" "(idx, b2) \<in> set (enumerate_list v2)"
      "idx \<notin> used" "ratio (content b1) (content b2) = bs'"
      by blast
    note ix = enumerate_list_index[OF m(2)]
    show ?thesis
    proof (cases "t \<le> bs'")
      case True
      then have "match_step t v2 b1 used = (modified_match b1 b2 bs', insert idx used)"
        by (simp add: match_step_def bv m(1))
      then show ?thesis using ix m(3,4) True by auto
    next
      case False
      then have "match_step t v2 b1 used = (deleted_match b1, used)"
        by (simp add: match_step_def bv m(1))
      then show ?thesis by simp
    qed
  qed
qed

lemma used_before_0 [simp]: "used_before t v1 v2 0 = {}"
  by (simp add: used_before_def)

lemma modified_not_deleted [simp]:
  "modified_match b1 b2 s \<noteq> deleted_match b" "deleted_match b \<noteq> modified_match b1 b2 s"
  using is_modified_modified_match[of b1 b2 s] is_modified_deleted_match[of b] by metis+

text \<open>
  \<open>paired_in_round t v1_blocks v2_blocks i j\<close>: the round of the block \<open>i\<close> of
  \<open>v1_blocks\<close> pairs it with the block \<open>j\<close> of \<open>v2_blocks\<close>, until then unused, as a
  \<open>modified\<close> entry, and marks \<open>j\<close> as used. An index of \<open>v2_blocks\<close> is in \<open>used_v2\<close>
  exactly when some round has paired it.
\<close>

definition paired_in_round ::
  "rat \<Rightarrow> ContentBlock list \<Rightarrow> ContentBlock list \<Rightarrow> nat \<Rightarrow> nat \<Rightarrow> bool"
where
  "paired_in_round t v1_blocks v2_blocks i j =
     (j < length v2_blocks \<and> j \<notin> used_before t v1_blocks v2_blocks i
      \<and> t \<le> ratio (content (v1_blocks ! i)) (content (v2_blocks ! j))
      \<and> match_similar_blocks v1_blocks v2_blocks t ! i
          = modified_match (v1_blocks ! i) (v2_blocks ! j)
              (ratio (content (v1_blocks ! i)) (content (v2_blocks ! j)))
      \<and> used_before t v1_blocks v2_blocks (Suc i)
          = insert j (used_before t v1_blocks v2_blocks i))"

lemma used_before_step:
  assumes "k < length v1"
  shows "j \<in> used_before t v1 v2 (Suc k)
     \<longleftrightarrow> j \<in> used_before t v1 v2 k \<or> paired_in_round t v1 v2 k j"
proof -
  define U where "U = used_before t v1 v2 k"
  note nth = match_similar_blocks_nth[OF assms, of v2 t, folded U_def]
  note suc = used_before_Suc[OF assms, of t v2, folded U_def]
  from match_step_cases[of t v2 "v1 ! k" U] show ?thesis
  proof
    assume d: "match_step t v2 (v1 ! k) U = (deleted_match (v1 ! k), U)"
    have "match_similar_blocks v1 v2 t ! k = deleted_match (v1 ! k)" using nth d by simp
    then have np: "\<not> paired_in_round t v1 v2 k j"
      by (simp add: paired_in_round_def)
    have eq: "used_before t v1 v2 (Suc k) = U" using d suc by simp
    show ?thesis using np by (simp add: eq U_def)
  next
    assume "\<exists>idx < length v2. idx \<notin> U
        \<and> t \<le> ratio (content (v1 ! k)) (content (v2 ! idx))
        \<and> match_step t v2 (v1 ! k) U
            = (modified_match (v1 ! k) (v2 ! idx) (ratio (content (v1 ! k)) (content (v2 ! idx))),
               insert idx U)"
    then obtain idx where m: "idx < length v2" "idx \<notin> U"
        "t \<le> ratio (content (v1 ! k)) (content (v2 ! idx))"
        "match_step t v2 (v1 ! k) U
            = (modified_match (v1 ! k) (v2 ! idx) (ratio (content (v1 ! k)) (content (v2 ! idx))),
               insert idx U)"
      by blast
    have s: "used_before t v1 v2 (Suc k) = insert idx U" using suc m(4) by simp
    have n: "match_similar_blocks v1 v2 t ! k
        = modified_match (v1 ! k) (v2 ! idx) (ratio (content (v1 ! k)) (content (v2 ! idx)))"
      using nth m(4) by simp
    have yes: "paired_in_round t v1 v2 k idx"
      unfolding paired_in_round_def U_def[symmetric] using m(1,2,3) s n by simp
    have only: "j = idx" if "paired_in_round t v1 v2 k j"
    proof -
      have "j \<notin> U" and "insert idx U = insert j U"
        using that s unfolding paired_in_round_def U_def[symmetric] by simp_all
      then show ?thesis by (metis insertE insertI1)
    qed
    have "j \<in> used_before t v1 v2 (Suc k) \<longleftrightarrow> j = idx \<or> j \<in> U" unfolding s by simp
    then show ?thesis using yes only unfolding U_def by metis
  qed
qed

lemma used_before_iff:
  "k \<le> length v1 \<Longrightarrow>
     j \<in> used_before t v1 v2 k \<longleftrightarrow> (\<exists>i < k. paired_in_round t v1 v2 i j)"
proof (induction k)
  case 0
  then show ?case by simp
next
  case (Suc k)
  then have "j \<in> used_before t v1 v2 k \<longleftrightarrow> (\<exists>i < k. paired_in_round t v1 v2 i j)"
    and "j \<in> used_before t v1 v2 (Suc k)
     \<longleftrightarrow> j \<in> used_before t v1 v2 k \<or> paired_in_round t v1 v2 k j"
    using used_before_step[of k v1 j t v2] by simp_all
  then show ?case by (simp only: less_Suc_eq) blast
qed

lemma enumerate_list_map: "enumerate_list xs = map (\<lambda>j. (j, xs ! j)) [0..<length xs]"
  unfolding enumerate_list_def by (rule nth_equalityI) simp_all

lemma unmatched_v2_nth:
  "unmatched_v2 v2 used = map (\<lambda>j. added_match (v2 ! j)) (filter (\<lambda>j. j \<notin> used) [0..<length v2])"
  by (simp add: unmatched_v2_def enumerate_list_map filter_map comp_def)

lemma length_match_similar_blocks:
  "length (match_similar_blocks v1 v2 t)
     = length v1 + length (filter (\<lambda>j. j \<notin> used_before t v1 v2 (length v1)) [0..<length v2])"
proof -
  have "length (match_similar_blocks v1 v2 t)
      = length (take (length v1) (match_similar_blocks v1 v2 t))
        + length (drop (length v1) (match_similar_blocks v1 v2 t))"
    by (metis append_take_drop_id length_append)
  moreover have "length v1 \<le> length (match_similar_blocks v1 v2 t)"
    using match_v1_results[of t v2 v1 "[]" "{}"]
    by (auto simp: match_similar_blocks_def split: prod.splits)
  ultimately show ?thesis
    by (simp add: match_similar_blocks_added unmatched_v2_nth)
qed

lemma added_entry_exists:
  assumes "j < length v2" and "j \<notin> used_before t v1 v2 (length v1)"
  shows "\<exists>p < length (match_similar_blocks v1 v2 t). length v1 \<le> p
           \<and> match_similar_blocks v1 v2 t ! p = added_match (v2 ! j)"
proof -
  let ?tail = "drop (length v1) (match_similar_blocks v1 v2 t)"
  have "j \<in> set (filter (\<lambda>j. j \<notin> used_before t v1 v2 (length v1)) [0..<length v2])"
    using assms by simp
  then have "added_match (v2 ! j) \<in> set ?tail"
    unfolding match_similar_blocks_added unmatched_v2_nth by (simp only: set_map) blast
  then obtain q where q: "q < length ?tail" "?tail ! q = added_match (v2 ! j)"
    by (auto simp: in_set_conv_nth)
  then have "length v1 + q < length (match_similar_blocks v1 v2 t)" by simp
  moreover have "match_similar_blocks v1 v2 t ! (length v1 + q) = added_match (v2 ! j)"
    using q by simp
  ultimately show ?thesis by (intro exI[of _ "length v1 + q"]) simp
qed

text \<open>
  Claim C4, as amended. Let the loop of \<open>_match_similar_blocks\<close> (threshold 0.5) reach the
  block \<open>k\<close> of \<open>v1_blocks\<close>, and look at its similarities to the blocks of \<open>v2_blocks\<close> not
  yet used. If the largest of them is exactly 1/2, the entry for the block is \<open>modified\<close>,
  paired with an unused block of that similarity, which is marked used; the change built
  from the entry has type \<open>MODIFIED\<close> and similarity 1/2. If all of them are below 1/2
  (or there is none), the entry is \<open>deleted\<close> for that block and nothing is marked. A block
  of \<open>v2_blocks\<close> is marked exactly when some round pairs it, as a \<open>modified\<close> entry. After
  the entries of the blocks of \<open>v1_blocks\<close>, one per block, the blocks of \<open>v2_blocks\<close> that
  no round has marked follow as \<open>added\<close> entries, in their order, and each of them becomes
  a change of type \<open>ADDED\<close>; a block that stayed below the threshold in one round can
  still be paired in a later round, and then it gives no \<open>added\<close> entry. For a single block
  of \<open>v1_blocks\<close> below the threshold against all of \<open>v2_blocks\<close> the result is the
  \<open>deleted\<close> entry followed by one \<open>added\<close> entry per block of \<open>v2_blocks\<close>.
\<close>

theorem intra_replace_threshold:
  assumes "k < length v1_blocks"
  shows
    "(unconsumed_sims (v1_blocks ! k) (used_before (1 / 2) v1_blocks v2_blocks k) v2_blocks \<noteq> []
       \<and> Max (set (unconsumed_sims (v1_blocks ! k)
                   (used_before (1 / 2) v1_blocks v2_blocks k) v2_blocks)) = 1 / 2
      \<longrightarrow> (\<exists>idx < length v2_blocks.
             idx \<notin> used_before (1 / 2) v1_blocks v2_blocks k
           \<and> ratio (content (v1_blocks ! k)) (content (v2_blocks ! idx)) = 1 / 2
           \<and> match_similar_blocks v1_blocks v2_blocks (1 / 2) ! k
               = modified_match (v1_blocks ! k) (v2_blocks ! idx) (1 / 2)
           \<and> used_before (1 / 2) v1_blocks v2_blocks (Suc k)
               = insert idx (used_before (1 / 2) v1_blocks v2_blocks k))
          \<and> change_type (match_change cid (match_similar_blocks v1_blocks v2_blocks (1 / 2) ! k))
               = MODIFIED
          \<and> similarity (match_change cid (match_similar_blocks v1_blocks v2_blocks (1 / 2) ! k))
               = Some (1 / 2))
   \<and> ((\<forall>s \<in> set (unconsumed_sims (v1_blocks ! k)
                   (used_before (1 / 2) v1_blocks v2_blocks k) v2_blocks). s < 1 / 2)
      \<longrightarrow> match_similar_blocks v1_blocks v2_blocks (1 / 2) ! k = deleted_match (v1_blocks ! k)
        \<and> match_change cid (match_similar_blocks v1_blocks v2_blocks (1 / 2) ! k)
            = deleted_change cid (v1_blocks ! k)
        \<and> used_before (1 / 2) v1_blocks v2_blocks (Suc k)
            = used_before (1 / 2) v1_blocks v2_blocks k)
   \<and> (\<forall>j. j \<in> used_before (1 / 2) v1_blocks v2_blocks (length v1_blocks) \<longleftrightarrow>
         (\<exists>i < length v1_blocks. j < length v2_blocks
            \<and> j \<notin> used_before (1 / 2) v1_blocks v2_blocks i
            \<and> 1 / 2 \<le> ratio (content (v1_blocks ! i)) (content (v2_blocks ! j))
            \<and> match_similar_blocks v1_blocks v2_blocks (1 / 2) ! i
                = modified_match (v1_blocks ! i) (v2_blocks ! j)
                    (ratio (content (v1_blocks ! i)) (content (v2_blocks ! j)))
            \<and> used_before (1 / 2) v1_blocks v2_blocks (Suc i)
                = insert j (used_before (1 / 2) v1_blocks v2_blocks i)))
   \<and> length (match_similar_blocks v1_blocks v2_blocks (1 / 2))
       = length v1_blocks
         + length (filter (\<lambda>j. j \<notin> used_before (1 / 2) v1_blocks v2_blocks (length v1_blocks))
                     [0..<length v2_blocks])
   \<and> drop (length v1_blocks) (match_similar_blocks v1_blocks v2_blocks (1 / 2))
       = map (\<lambda>j. added_match (v2_blocks ! j))
           (filter (\<lambda>j. j \<notin> used_before (1 / 2) v1_blocks v2_blocks (length v1_blocks))
              [0..<length v2_blocks])
   \<and> (\<forall>j < length v2_blocks.
         j \<notin> used_before (1 / 2) v1_blocks v2_blocks (length v1_blocks)
         \<longrightarrow> (\<exists>p < length (match_similar_blocks v1_blocks v2_blocks (1 / 2)).
                length v1_blocks \<le> p
              \<and> match_similar_blocks v1_blocks v2_blocks (1 / 2) ! p = added_match (v2_blocks ! j)
              \<and> match_change cid (match_similar_blocks v1_blocks v2_blocks (1 / 2) ! p)
                  = added_change cid (v2_blocks ! j)))
   \<and> ((\<forall>b2 \<in> set v2_blocks. ratio (content (v1_blocks ! k)) (content b2) < 1 / 2)
      \<longrightarrow> match_similar_blocks [v1_blocks ! k] v2_blocks (1 / 2)
           = deleted_match (v1_blocks ! k) # map added_match v2_blocks)"
proof -
  define b1 where "b1 = v1_blocks ! k"
  define used where "used = used_before (1 / 2) v1_blocks v2_blocks k"
  note nth = match_similar_blocks_nth[OF assms, of v2_blocks "1 / 2", folded b1_def used_def]
  note suc = used_before_Suc[OF assms, of "1 / 2" v2_blocks, folded b1_def used_def]
  have A: "(\<exists>idx < length v2_blocks. idx \<notin> used
           \<and> ratio (content b1) (content (v2_blocks ! idx)) = 1 / 2
           \<and> match_similar_blocks v1_blocks v2_blocks (1 / 2) ! k
               = modified_match b1 (v2_blocks ! idx) (1 / 2)
           \<and> used_before (1 / 2) v1_blocks v2_blocks (Suc k) = insert idx used)
          \<and> change_type (match_change cid (match_similar_blocks v1_blocks v2_blocks (1 / 2) ! k))
               = MODIFIED
          \<and> similarity (match_change cid (match_similar_blocks v1_blocks v2_blocks (1 / 2) ! k))
               = Some (1 / 2)"
    if "unconsumed_sims b1 used v2_blocks \<noteq> []"
      and "Max (set (unconsumed_sims b1 used v2_blocks)) = 1 / 2"
    using match_step_half[OF that] nth suc match_change_modified by auto
  have B: "match_similar_blocks v1_blocks v2_blocks (1 / 2) ! k = deleted_match b1
        \<and> match_change cid (match_similar_blocks v1_blocks v2_blocks (1 / 2) ! k)
            = deleted_change cid b1
        \<and> used_before (1 / 2) v1_blocks v2_blocks (Suc k) = used"
    if "\<forall>s \<in> set (unconsumed_sims b1 used v2_blocks). s < 1 / 2"
    using match_step_below[OF that] nth suc by (simp add: match_change_deleted)
  have D: "match_similar_blocks [b1] v2_blocks (1 / 2) = deleted_match b1 # map added_match v2_blocks"
    if "\<forall>b2 \<in> set v2_blocks. ratio (content b1) (content b2) < 1 / 2"
  proof -
    have "\<forall>s \<in> set (unconsumed_sims b1 {} v2_blocks). s < 1 / 2"
      using that by (auto simp: unconsumed_sims_def dest: enumerate_list_index)
    from match_step_below[OF this] show ?thesis
      by (simp add: match_similar_blocks_def match_v1_step unmatched_v2_empty del: match_v1.simps(2))
  qed
  note U = used_before_iff[OF order_refl, of _ "1 / 2" v1_blocks v2_blocks,
      unfolded paired_in_round_def]
  note L = length_match_similar_blocks[of v1_blocks v2_blocks "1 / 2"]
  have T: "drop (length v1_blocks) (match_similar_blocks v1_blocks v2_blocks (1 / 2))
       = map (\<lambda>j. added_match (v2_blocks ! j))
           (filter (\<lambda>j. j \<notin> used_before (1 / 2) v1_blocks v2_blocks (length v1_blocks))
              [0..<length v2_blocks])"
    by (simp only: match_similar_blocks_added unmatched_v2_nth)
  have E: "\<exists>p < length (match_similar_blocks v1_blocks v2_blocks (1 / 2)).
                length v1_blocks \<le> p
              \<and> match_similar_blocks v1_blocks v2_blocks (1 / 2) ! p = added_match (v2_blocks ! j)
              \<and> match_change cid (match_similar_blocks v1_blocks v2_blocks (1 / 2) ! p)
                  = added_change cid (v2_blocks ! j)"
    if "j < length v2_blocks" "j \<notin> used_before (1 / 2) v1_blocks v2_blocks (length v1_blocks)"
    for j
    using added_entry_exists[OF that] match_change_added[of cid "v2_blocks ! j"] by auto
  show ?thesis
    unfolding b1_def[symmetric] used_def[symmetric]
    using A B D U L T E by blast
qed

text \<open>A paragraph as \<open>parse_document\<close> builds it, for the examples.\<close>

definition paragraph_block :: "int \<Rightarrow> string \<Rightarrow> ContentBlock" where
  "paragraph_block i s = \<lparr>index = i, cb_block_type = ''paragraph'', content = s\<rparr>"

lemmas difflib_eval = ratio_def get_matching_blocks_def find_longest_match_def flm_rows.simps
  extend_left.simps extend_right.simps b2j_def j2lenget_def

lemma ratio_ab_ac: "ratio ''ab'' ''ac'' = 1 / 2"
  by (simp add: difflib_eval)

lemma ratio_abcd_axyz: "ratio ''abcd'' ''axyz'' = 1 / 4"
  by (simp add: difflib_eval)

lemma ratio_ab_qq: "ratio ''ab'' ''qq'' = 0"
  by (simp add: difflib_eval)

lemma ratio_zz_qq: "ratio ''zz'' ''qq'' = 0"
  by (simp add: difflib_eval)

text \<open>
  Two runs. The paragraphs \<open>ab\<close>, \<open>zz\<close> against \<open>ac\<close>, \<open>qq\<close>: \<open>ab\<close> and \<open>ac\<close> have the
  similarity 1/2 and are paired, \<open>zz\<close> is deleted and \<open>qq\<close>, which no round has marked, is
  added. The paragraph \<open>abcd\<close> against \<open>axyz\<close>, of similarity 1/4: one is deleted, the
  other added.
\<close>

theorem intra_replace_threshold_witness:
  "match_similar_blocks [paragraph_block 0 ''ab'', paragraph_block 1 ''zz'']
       [paragraph_block 0 ''ac'', paragraph_block 1 ''qq''] (1 / 2)
     = [modified_match (paragraph_block 0 ''ab'') (paragraph_block 0 ''ac'') (1 / 2),
        deleted_match (paragraph_block 1 ''zz''), added_match (paragraph_block 1 ''qq'')]
   \<and> match_similar_blocks [paragraph_block 0 ''abcd''] [paragraph_block 0 ''axyz''] (1 / 2)
     = [deleted_match (paragraph_block 0 ''abcd''), added_match (paragraph_block 0 ''axyz'')]"
proof -
  let ?v1 = "[paragraph_block 0 ''ab'', paragraph_block 1 ''zz'']"
  let ?v2 = "[paragraph_block 0 ''ac'', paragraph_block 1 ''qq'']"
  let ?m = "match_similar_blocks ?v1 ?v2 (1 / 2)"
  have c: "content (paragraph_block i s) = s" for i s by (simp add: paragraph_block_def)
  have s0: "unconsumed_sims (?v1 ! 0) (used_before (1 / 2) ?v1 ?v2 0) ?v2 = [1 / 2, 0]"
    by (simp add: unconsumed_sims_def enumerate_list_def c ratio_ab_ac ratio_ab_qq)
  have "\<exists>idx < length ?v2. ratio (content (?v1 ! 0)) (content (?v2 ! idx)) = 1 / 2
           \<and> ?m ! 0 = modified_match (?v1 ! 0) (?v2 ! idx) (1 / 2)
           \<and> used_before (1 / 2) ?v1 ?v2 (Suc 0) = insert idx (used_before (1 / 2) ?v1 ?v2 0)"
    using intra_replace_threshold[of 0 ?v1 ?v2] unfolding s0 by auto
  then obtain idx where i: "idx < 2" "ratio (content (?v1 ! 0)) (content (?v2 ! idx)) = 1 / 2"
      "?m ! 0 = modified_match (?v1 ! 0) (?v2 ! idx) (1 / 2)"
      "used_before (1 / 2) ?v1 ?v2 (Suc 0) = {idx}"
    by auto
  have "idx = 0"
  proof (rule ccontr)
    assume "idx \<noteq> 0"
    then have "idx = 1" using i(1) by simp
    then show False using i(2) by (simp add: c ratio_ab_qq)
  qed
  then have m0: "?m ! 0 = modified_match (paragraph_block 0 ''ab'') (paragraph_block 0 ''ac'') (1 / 2)"
    and u1: "used_before (1 / 2) ?v1 ?v2 (Suc 0) = {0}"
    using i(3,4) by simp_all
  have s1: "\<forall>s \<in> set (unconsumed_sims (?v1 ! Suc 0) (used_before (1 / 2) ?v1 ?v2 (Suc 0)) ?v2).
      s < 1 / 2"
    unfolding u1 by (simp add: unconsumed_sims_def enumerate_list_def c ratio_zz_qq)
  have k1: "Suc 0 < length ?v1" by simp
  have "?m ! Suc 0 = deleted_match (?v1 ! Suc 0)"
    and "used_before (1 / 2) ?v1 ?v2 (Suc (Suc 0)) = used_before (1 / 2) ?v1 ?v2 (Suc 0)"
    and len: "length ?m = length ?v1
         + length (filter (\<lambda>j. j \<notin> used_before (1 / 2) ?v1 ?v2 (length ?v1)) [0..<length ?v2])"
    and tl: "drop (length ?v1) ?m
       = map (\<lambda>j. added_match (?v2 ! j))
           (filter (\<lambda>j. j \<notin> used_before (1 / 2) ?v1 ?v2 (length ?v1)) [0..<length ?v2])"
    using intra_replace_threshold[OF k1, of ?v2] s1 by blast+
  then have m1: "?m ! Suc 0 = deleted_match (paragraph_block 1 ''zz'')"
    and u2: "used_before (1 / 2) ?v1 ?v2 (Suc (Suc 0)) = {0}"
    using u1 by simp_all
  have len3: "length ?m = 3" using len u2 by simp
  have "drop (Suc (Suc 0)) ?m = [added_match (paragraph_block 1 ''qq'')]"
    using tl u2 by (simp add: numeral_2_eq_2)
  then have m2: "?m ! Suc (Suc 0) = added_match (paragraph_block 1 ''qq'')"
    by (rule nth_via_drop)
  have one: "?m = [modified_match (paragraph_block 0 ''ab'') (paragraph_block 0 ''ac'') (1 / 2),
        deleted_match (paragraph_block 1 ''zz''), added_match (paragraph_block 1 ''qq'')]"
    using len3 m0 m1 m2 by (intro nth_equalityI) (auto simp: less_Suc_eq numeral_3_eq_3)
  have two: "match_similar_blocks [paragraph_block 0 ''abcd''] [paragraph_block 0 ''axyz''] (1 / 2)
     = [deleted_match (paragraph_block 0 ''abcd''), added_match (paragraph_block 0 ''axyz'')]"
    using intra_replace_threshold[of 0 "[paragraph_block 0 ''abcd'']" "[paragraph_block 0 ''axyz'']"]
    by (simp add: c ratio_abcd_axyz)
  show ?thesis using one two by simp
qed

text \<open>
  The claim as stated fails where a block of \<open>v2_blocks\<close> stays below the threshold for
  one block of \<open>v1_blocks\<close> and is paired with a later one. The paragraphs \<open>axyz\<close>, \<open>ab\<close>
  against \<open>ac\<close>: for \<open>axyz\<close> the only similarity is 1/3, so it is deleted, and \<open>ac\<close>, unused
  in that round, is not added: it is the new text of the change of \<open>ab\<close>.
\<close>

theorem below_threshold_counterexample:
  "unconsumed_sims (paragraph_block 0 ''axyz'')
       (used_before (1 / 2) [paragraph_block 0 ''axyz'', paragraph_block 1 ''ab'']
          [paragraph_block 0 ''ac''] 0)
       [paragraph_block 0 ''ac'']
     = [1 / 3]
   \<and> map (\<lambda>c. (change_type c, original c, modified c))
       (diff_documents [paragraph_block 0 ''axyz'', paragraph_block 1 ''ab'']
          [paragraph_block 0 ''ac''])
     = [(DELETED, Some ''axyz'', None), (MODIFIED, Some ''ab'', Some ''ac'')]"
  by code_simp

section \<open>Regular expressions (Python's re)\<close>

text \<open>
  The patterns of the classifier use character sets, \<open>\d\<close>, \<open>\s\<close>, literals, \<open>\b\<close>,
  sequence, alternation, \<open>?\<close>, \<open>*\<close>, \<open>+\<close> and \<open>{m,n}\<close>, and are searched with
  \<open>re.IGNORECASE\<close>, and only for whether they match somewhere. A backtracking matcher finds
  a match exactly when one exists, so the model computes all the ways a pattern can match.

  A literal is given by its code point and is compared ignoring case. The literals of the
  patterns that lie above 255 (in the Vietnamese words of the currency patterns) match no
  code point below 256, with or without \<open>re.IGNORECASE\<close>.
\<close>

datatype re_item = Rdigit | Rspace | Rchar nat

fun item_matches :: "re_item \<Rightarrow> char \<Rightarrow> bool" where
  "item_matches Rdigit c = re_digit c"
| "item_matches Rspace c = py_isspace c"
| "item_matches (Rchar p) c = (p < 256 \<and> py_lower_char c = py_lower_char (char_of p))"

datatype regex =
    Eps
  | One "re_item list"
  | WordB
  | Seq regex regex
  | Alt regex regex
  | Opt regex
  | Star regex
  | Plus regex
  | Rep nat nat regex

text \<open>
  A cursor is a position in the searched text: the character before it, if any, and the
  text from it on. \<open>re_match r cur\<close> lists the cursors at which a match of \<open>r\<close> that
  starts at \<open>cur\<close> can end. A repetition that consumes nothing reaches no new cursor, so
  \<open>*\<close> and \<open>+\<close> need no more rounds than characters are left.
\<close>

type_synonym cursor = "char option \<times> string"

fun iter :: "(cursor \<Rightarrow> cursor list) \<Rightarrow> nat \<Rightarrow> cursor \<Rightarrow> cursor list" where
  "iter f 0 cur = [cur]"
| "iter f (Suc n) cur = concat (map (iter f n) (f cur))"

definition is_word_at :: "char option \<Rightarrow> bool" where
  "is_word_at c = (case c of None \<Rightarrow> False | Some c' \<Rightarrow> re_word c')"

fun re_match :: "regex \<Rightarrow> cursor \<Rightarrow> cursor list" where
  "re_match Eps cur = [cur]"
| "re_match (One items) (prev, s) =
     (case s of [] \<Rightarrow> []
      | c # s' \<Rightarrow> if list_ex (\<lambda>it. item_matches it c) items then [(Some c, s')] else [])"
| "re_match WordB (prev, s) =
     (if is_word_at prev \<noteq> is_word_at (case s of [] \<Rightarrow> None | c # s' \<Rightarrow> Some c)
      then [(prev, s)] else [])"
| "re_match (Seq r1 r2) cur = concat (map (\<lambda>c. re_match r2 c) (re_match r1 cur))"
| "re_match (Alt r1 r2) cur = re_match r1 cur @ re_match r2 cur"
| "re_match (Opt r) cur = re_match r cur @ [cur]"
| "re_match (Star r) (prev, s) =
     concat (map (\<lambda>n. iter (\<lambda>c. re_match r c) n (prev, s)) [0..<Suc (length s)])"
| "re_match (Plus r) (prev, s) =
     concat (map (\<lambda>n. iter (\<lambda>c. re_match r c) n (prev, s)) [1..<Suc (length s)])"
| "re_match (Rep lo hi r) cur =
     concat (map (\<lambda>n. iter (\<lambda>c. re_match r c) n cur) [lo..<Suc hi])"

fun cursors :: "char option \<Rightarrow> string \<Rightarrow> cursor list" where
  "cursors prev [] = [(prev, [])]"
| "cursors prev (c # s) = (prev, c # s) # cursors (Some c) s"

definition re_search :: "regex \<Rightarrow> string \<Rightarrow> bool" where
  "re_search r s = list_ex (\<lambda>cur. re_match r cur \<noteq> []) (cursors None s)"

definition re_seq :: "regex list \<Rightarrow> regex" where
  "re_seq rs = foldr Seq rs Eps"

definition re_lits :: "nat list \<Rightarrow> regex" where
  "re_lits ps = re_seq (map (\<lambda>p. One [Rchar p]) ps)"

section \<open>Classification (app/services/classifier.py)\<close>

subsection \<open>The rule-based classifier\<close>

text \<open>
  \<open>CRITICAL_PATTERNS\<close>, in the order of the source. The code points: \<open>$\<close> 36, \<open>%\<close> 37,
  \<open>,\<close> 44, \<open>.\<close> 46; \<open>VND\<close> is 86 78 68; the three Vietnamese spellings of the currency are
  273 7891 110 103, 118 110 273 and 86 78 272; the four number words are
  116 114 105 7879 117, 116 7927, 110 103 104 236 110 and 110 103 224 110.
\<close>

definition re_d :: regex where
  "re_d = One [Rdigit]"

definition pat_percent :: regex where
  "pat_percent =
     re_seq [Plus re_d, Opt (One [Rchar 46, Rchar 44]), Star re_d, Star (One [Rspace]),
             One [Rchar 37]]"

definition pat_usd :: regex where
  "pat_usd =
     re_seq [One [Rchar 36], Star (One [Rspace]), Plus (One [Rdigit, Rchar 44]),
             Opt (One [Rchar 46]), Star re_d]"

definition pat_vnd :: regex where
  "pat_vnd =
     re_seq [Plus (One [Rdigit, Rchar 46, Rchar 44]), Star (One [Rspace]),
             Alt (re_lits [86, 78, 68])
               (Alt (re_lits [273, 7891, 110, 103])
                 (Alt (re_lits [118, 110, 273]) (re_lits [86, 78, 272])))]"

definition pat_vnd_word :: regex where
  "pat_vnd_word =
     re_seq [Plus (One [Rdigit, Rchar 46, Rchar 44]), Star (One [Rspace]),
             Alt (re_lits [116, 114, 105, 7879, 117])
               (Alt (re_lits [116, 7927])
                 (Alt (re_lits [110, 103, 104, 236, 110]) (re_lits [110, 103, 224, 110])))]"

definition pat_grouped :: regex where
  "pat_grouped =
     re_seq [WordB, Rep 1 3 re_d, Plus (Seq (One [Rchar 46, Rchar 44]) (Rep 3 3 re_d)), WordB]"

definition pat_decimal :: regex where
  "pat_decimal = re_seq [WordB, Plus re_d, One [Rchar 46, Rchar 44], Plus re_d, WordB]"

definition reason_percent :: string where
  "reason_percent = ''Gia tri phan tram thay doi''"

definition reason_usd :: string where
  "reason_usd = ''Gia tri tien te thay doi (USD)''"

definition reason_vnd :: string where
  "reason_vnd = ''Gia tri tien te thay doi (VND)''"

definition reason_number :: string where
  "reason_number = ''Gia tri so thay doi''"

definition CRITICAL_PATTERNS :: "(regex \<times> string) list" where
  "CRITICAL_PATTERNS =
     [(pat_percent, reason_percent),
      (pat_usd, reason_usd),
      (pat_vnd, reason_vnd),
      (pat_vnd_word, reason_vnd),
      (pat_grouped, reason_number),
      (pat_decimal, reason_number)]"

definition RISK_STATEMENTS :: "string \<rightharpoonup> string" where
  "RISK_STATEMENTS =
     map_of
       [(reason_percent, ''Co the anh huong den cac tinh toan tai chinh - can xac minh''),
        (reason_usd, ''Sai lech gia tri tien te - co the anh huong tai chinh''),
        (reason_vnd, ''Sai lech gia tri tien te - co the anh huong tai chinh''),
        (reason_number, ''Thay doi du lieu so - can kiem tra voi nguon goc'')]"

text \<open>
  The text that \<open>classify_by_rules\<close> scans: the non-empty old and new texts of the word
  changes joined by spaces, or \<open>diff_text\<close> (or the empty string) when \<open>word_changes\<close> is
  \<open>None\<close> or empty.
\<close>

definition texts_to_check :: "WordChange list \<Rightarrow> string list" where
  "texts_to_check wcs =
     concat (map (\<lambda>wc. (if old_text wc \<noteq> [] then [old_text wc] else [])
                        @ (if new_text wc \<noteq> [] then [new_text wc] else [])) wcs)"

definition text_to_analyze :: "'a Change_scheme \<Rightarrow> string" where
  "text_to_analyze change =
     (case word_changes change of
        Some (wc # wcs) \<Rightarrow> py_join '' '' (texts_to_check (wc # wcs))
      | _ \<Rightarrow> (case diff_text change of Some d \<Rightarrow> d | None \<Rightarrow> []))"

text \<open>\<open>re.sub(r'[^\w]', '', s)\<close> keeps the word characters of \<open>s\<close>.\<close>

definition word_chars :: "string \<Rightarrow> string" where
  "word_chars s = filter re_word s"

definition trivial_word_change :: "WordChange \<Rightarrow> bool" where
  "trivial_word_change wc =
     (py_lower (word_chars (py_strip (old_text wc)))
        = py_lower (word_chars (py_strip (new_text wc))))"

definition is_trivial_change :: "'a Change_scheme \<Rightarrow> bool" where
  "is_trivial_change change =
     (case word_changes change of
        Some (wc # wcs) \<Rightarrow> list_all trivial_word_change (wc # wcs)
      | _ \<Rightarrow> False)"

text \<open>The loop over \<open>CRITICAL_PATTERNS\<close>: the first pattern found in the text decides.\<close>

fun first_pattern :: "(regex \<times> string) list \<Rightarrow> string \<Rightarrow> ImpactLevel option \<times> string \<times> string" where
  "first_pattern [] txt = (None, [], [])"
| "first_pattern ((pattern, reason) # rest) txt =
     (if re_search pattern txt
      then (Some CRITICAL, reason,
            (case RISK_STATEMENTS reason of
               Some risk \<Rightarrow> risk
             | None \<Rightarrow> ''Phat hien thay doi - can xem xet''))
      else first_pattern rest txt)"

definition classify_by_rules :: "'a Change_scheme \<Rightarrow> ImpactLevel option \<times> string \<times> string" where
  "classify_by_rules change =
     (if is_trivial_change change
      then (Some LOW, ''Thay doi khong dang ke'',
            ''Khong anh huong den nghiep vu - chi thay doi dinh dang'')
      else first_pattern CRITICAL_PATTERNS (text_to_analyze change))"

subsection \<open>The reply of the reasoning service\<close>

text \<open>
  What \<open>json.loads\<close> returns: \<open>None\<close>, a \<open>bool\<close>, an \<open>int\<close>, a \<open>float\<close> (finite, infinite
  or not a number), a \<open>str\<close>, a \<open>list\<close> or a \<open>dict\<close> with \<open>str\<close> keys, in the order of its
  keys.
\<close>

datatype pyfloat = Finite rat | Infinite | NotANumber

datatype json =
    JNull
  | JBool bool
  | JInt int
  | JFloat pyfloat
  | JStr string
  | JArr "json list"
  | JObj "(string \<times> json) list"

text \<open>
  The three outcomes of \<open>json.loads(s)\<close>: it returns a value; it raises \<open>JSONDecodeError\<close>,
  the one exception that \<open>_parse_response\<close> catches; or it raises another exception, which
  \<open>_parse_response\<close> lets through (a \<open>RecursionError\<close> for a text nested too deeply, a
  \<open>ValueError\<close> for an integer of more digits than \<open>int\<close> converts), kept with its message.
\<close>

datatype loaded = Loaded json | JSONDecodeError | OtherError string

text \<open>
  Two functions of Python's library are taken as they are: \<open>json_loads lib s\<close> is the
  outcome of \<open>json.loads(s)\<close>; \<open>int_of_str lib s\<close> is the value of \<open>int(s)\<close> for a \<open>str\<close>,
  or the message of the \<open>ValueError\<close> it raises.
\<close>

record library =
  json_loads :: "string \<Rightarrow> loaded"
  int_of_str :: "string \<Rightarrow> string + int"

text \<open>
  An exception other than \<open>JSONDecodeError\<close> is modelled by its message \<open>str(e)\<close>, on the
  left of a sum: the handler in \<open>classify_batch\<close> catches every \<open>Exception\<close> and uses
  nothing else of it. The messages are those of CPython 3.11.
\<close>

fun type_name :: "json \<Rightarrow> string" where
  "type_name JNull = ''NoneType''"
| "type_name (JBool b) = ''bool''"
| "type_name (JInt i) = ''int''"
| "type_name (JFloat f) = ''float''"
| "type_name (JStr s) = ''str''"
| "type_name (JArr xs) = ''list''"
| "type_name (JObj kvs) = ''dict''"

definition quoted :: "string \<Rightarrow> string" where
  "quoted s = CHR 0x27 # s @ [CHR 0x27]"

definition no_attribute :: "json \<Rightarrow> string \<Rightarrow> string" where
  "no_attribute v attr = quoted (type_name v) @ '' object has no attribute '' @ quoted attr"

text \<open>\<open>for item in parsed\<close>: the items, or the \<open>TypeError\<close> of a value that is not iterable.\<close>

fun py_iter :: "json \<Rightarrow> string + json list" where
  "py_iter (JArr xs) = Inr xs"
| "py_iter (JObj kvs) = Inr (map (\<lambda>(k, v). JStr k) kvs)"
| "py_iter (JStr s) = Inr (map (\<lambda>c. JStr [c]) s)"
| "py_iter v = Inl (quoted (type_name v) @ '' object is not iterable'')"

text \<open>\<open>item.get(key, default)\<close>; the default of \<open>item.get(key)\<close> is \<open>None\<close>.\<close>

fun py_get :: "json \<Rightarrow> string \<Rightarrow> json \<Rightarrow> string + json" where
  "py_get (JObj kvs) key dflt = Inr (case map_of kvs key of Some v \<Rightarrow> v | None \<Rightarrow> dflt)"
| "py_get v key dflt = Inl (no_attribute v ''get'')"

definition truncate_rat :: "rat \<Rightarrow> int" where
  "truncate_rat r = (if 0 \<le> r then \<lfloor>r\<rfloor> else \<lceil>r\<rceil>)"

fun py_int :: "library \<Rightarrow> json \<Rightarrow> string + int" where
  "py_int lib (JInt i) = Inr i"
| "py_int lib (JBool b) = Inr (if b then 1 else 0)"
| "py_int lib (JFloat (Finite r)) = Inr (truncate_rat r)"
| "py_int lib (JFloat Infinite) = Inl ''cannot convert float infinity to integer''"
| "py_int lib (JFloat NotANumber) = Inl ''cannot convert float NaN to integer''"
| "py_int lib (JStr s) = int_of_str lib s"
| "py_int lib v =
     Inl (''int() argument must be a string, a bytes-like object or a real number, not ''
          @ quoted (type_name v))"

fun py_str_lower :: "json \<Rightarrow> string + string" where
  "py_str_lower (JStr s) = Inr (py_lower s)"
| "py_str_lower v = Inl (no_attribute v ''lower'')"

definition impact_map :: "string \<rightharpoonup> ImpactLevel" where
  "impact_map =
     map_of [(''critical'', CRITICAL), (''medium'', MEDIUM), (''low'', LOW), (''high'', CRITICAL)]"

fun default_reasons :: "ImpactLevel \<Rightarrow> string \<times> string" where
  "default_reasons CRITICAL = (''Thay doi quan trong'', ''Can xem xet ky'')"
| "default_reasons MEDIUM = (''Thay doi co y nghia'', ''Can xem xet'')"
| "default_reasons LOW = (''Thay doi nho'', ''Anh huong thap'')"

text \<open>
  The dictionary of results: its keys are the \<open>int\<close> ids, and \<open>None\<close> for an item without
  an id.
\<close>

type_synonym results = "int option \<rightharpoonup> ImpactLevel \<times> string \<times> string"

fun parse_items :: "library \<Rightarrow> json list \<Rightarrow> results \<Rightarrow> string + results" where
  "parse_items lib [] results = Inr results"
| "parse_items lib (item # items) results =
     (case py_get item ''id'' JNull of
        Inl e \<Rightarrow> Inl e
      | Inr id_value \<Rightarrow>
          (case (if id_value \<noteq> JNull then map_sum id Some (py_int lib id_value) else Inr None) of
             Inl e \<Rightarrow> Inl e
           | Inr cid \<Rightarrow>
               (case py_get item ''impact'' (JStr ''medium'') of
                  Inl e \<Rightarrow> Inl e
                | Inr impact_value \<Rightarrow>
                    (case py_str_lower impact_value of
                       Inl e \<Rightarrow> Inl e
                     | Inr impact_str \<Rightarrow>
                         let impact_level =
                               (case impact_map impact_str of Some l \<Rightarrow> l | None \<Rightarrow> MEDIUM)
                         in parse_items lib items
                              (results(cid \<mapsto> (impact_level, default_reasons impact_level)))))))"

definition strip_fences :: "string \<Rightarrow> string" where
  "strip_fences response_text =
     (let t0 = py_strip response_text;
          t1 = (if startswith t0 ''```json'' then drop 7 t0 else t0);
          t2 = (if startswith t1 ''```'' then drop 3 t1 else t1);
          t3 = (if endswith t2 ''```'' then take (length t2 - 3) t2 else t2)
      in py_strip t3)"

definition parse_response :: "library \<Rightarrow> string \<Rightarrow> string + results" where
  "parse_response lib response_text =
     (case json_loads lib (strip_fences response_text) of
        JSONDecodeError \<Rightarrow> Inr Map.empty
      | OtherError e \<Rightarrow> Inl e
      | Loaded parsed \<Rightarrow>
          (case py_iter parsed of
             Inl e \<Rightarrow> Inl e
           | Inr items \<Rightarrow> parse_items lib items Map.empty))"

subsection \<open>The reasoning classifier and the hybrid pipeline\<close>

text \<open>
  What the external service does when \<open>classify_batch\<close> calls it: either the call, or
  reading \<open>response.choices[0].message.content\<close>, raises an exception with the message
  \<open>str(e)\<close>; or the call returns after \<open>llm_time_ms\<close> milliseconds (the value of
  \<open>int((time.time() - llm_start) * 1000)\<close>) with a content that is a string or \<open>None\<close>.
  The prompt the source builds from the changes and the document type only goes to the
  service, so it is not modelled; it is built before the \<open>try\<close> block, by formatting and
  slicing the fields of the changes, which does not raise on a \<open>Change\<close>. The calls of
  \<open>print\<close> are taken to succeed.
\<close>

datatype service = Raises string | Responds int "string option"

text \<open>
  \<open>LLMClassifier.__init__\<close>: the client exists when \<open>api_key or settings.OPENAI_API_KEY\<close>
  is a non-empty string.
\<close>

definition has_client :: "string option \<Rightarrow> string \<Rightarrow> bool" where
  "has_client api_key settings_key =
     ((case api_key of Some k \<Rightarrow> if k \<noteq> [] then k else settings_key | None \<Rightarrow> settings_key)
        \<noteq> [])"

text \<open>\<open>{c.change_id: v for c in changes}\<close>, the same value for every change.\<close>

definition all_changes :: "'a Change_scheme list \<Rightarrow> ImpactLevel \<times> string \<times> string \<Rightarrow> results" where
  "all_changes changes v = map_of (map (\<lambda>c. (Some (change_id c), v)) changes)"

definition llm_failed :: "'a Change_scheme list \<Rightarrow> string \<Rightarrow> results \<times> int" where
  "llm_failed changes e =
     (all_changes changes (MEDIUM, ''Loi LLM: '' @ take 50 e, ''Can xem xet thu cong''), 0)"

text \<open>
  The body of the \<open>try\<close> block of \<open>classify_batch\<close>: what it returns, or on the left the
  exception that leaves it. Slicing \<open>response_text[:200]\<close> raises a \<open>TypeError\<close> when the
  content is \<open>None\<close>.
\<close>

definition classify_batch_try :: "library \<Rightarrow> service \<Rightarrow> string + results \<times> int" where
  "classify_batch_try lib svc =
     (case svc of
        Raises e \<Rightarrow> Inl e
      | Responds llm_time_ms None \<Rightarrow>
          Inl (quoted ''NoneType'' @ '' object is not subscriptable'')
      | Responds llm_time_ms (Some response_text) \<Rightarrow>
          (case parse_response lib response_text of
             Inl e \<Rightarrow> Inl e
           | Inr parsed_results \<Rightarrow> Inr (parsed_results, llm_time_ms)))"

text \<open>
  \<open>classify_batch\<close>: the two early returns, then the \<open>try\<close> block with its handler
  \<open>except Exception\<close>, which turns every exception of the block into a result.
\<close>

definition classify_batch ::
  "library \<Rightarrow> bool \<Rightarrow> service \<Rightarrow> 'a Change_scheme list \<Rightarrow> results \<times> int"
where
  "classify_batch lib client svc changes =
     (if changes = [] then (Map.empty, 0)
      else if \<not> client
      then (all_changes changes
              (MEDIUM, ''LLM khong kha dung - mac dinh muc trung binh'', ''Can xem xet thu cong''),
            0)
      else
        (case classify_batch_try lib svc of
           Inl e \<Rightarrow> llm_failed changes e
         | Inr returned \<Rightarrow> returned))"

record ClassificationResult =
  classified_changes :: "ClassifiedChange list"
  llm_time_ms :: int
  llm_calls :: int

text \<open>The \<open>ClassifiedChange\<close> that \<open>classify_changes\<close> builds from a change, field by field.\<close>

definition classified_change ::
  "Change \<Rightarrow> ImpactLevel \<Rightarrow> string \<Rightarrow> string \<Rightarrow> string \<Rightarrow> ClassifiedChange"
where
  "classified_change change imp reason risk source =
     \<lparr>change_id = change_id change, change_type = change_type change,
      block_type = block_type change, location = location change,
      original = original change, modified = modified change,
      similarity = similarity change, diff_text = diff_text change,
      word_changes = word_changes change,
      impact = imp, reasoning = reason, risk_analysis = risk,
      classification_source = source\<rparr>"

text \<open>Layer 1, with the state \<open>(classified, needs_llm)\<close>.\<close>

fun rule_layer ::
  "Change list \<Rightarrow> ClassifiedChange list \<times> Change list \<Rightarrow> ClassifiedChange list \<times> Change list"
where
  "rule_layer [] st = st"
| "rule_layer (change # rest) (classified, needs_llm) =
     (case classify_by_rules change of
        (Some imp, reason, risk) \<Rightarrow>
          rule_layer rest
            (classified @ [classified_change change imp reason risk ''rule-based''], needs_llm)
      | (None, reason, risk) \<Rightarrow> rule_layer rest (classified, needs_llm @ [change]))"

text \<open>Layer 2, the loop over \<open>needs_llm\<close>.\<close>

definition llm_classified :: "results \<Rightarrow> Change \<Rightarrow> ClassifiedChange" where
  "llm_classified llm_results change =
     (case llm_results (Some (change_id change)) of
        Some (imp, reason, risk) \<Rightarrow> classified_change change imp reason risk ''llm''
      | None \<Rightarrow>
          classified_change change MEDIUM ''Khong the phan loai'' ''Can xem xet thu cong'' ''llm'')"

text \<open>
  \<open>classify_changes\<close>; \<open>settings_key\<close> is \<open>settings.OPENAI_API_KEY\<close> and \<open>svc\<close> what the
  service does if it is called. \<open>list.sort\<close> and \<open>sort_key\<close> are both stable.
\<close>

definition classify_changes ::
  "library \<Rightarrow> string \<Rightarrow> service \<Rightarrow> Change list \<Rightarrow> string option \<Rightarrow> ClassificationResult"
where
  "classify_changes lib settings_key svc changes api_key =
     (case rule_layer changes ([], []) of
        (classified, needs_llm) \<Rightarrow>
          if needs_llm \<noteq> []
          then
            (case classify_batch lib (has_client api_key settings_key) svc needs_llm of
               (llm_results, time_ms) \<Rightarrow>
                 \<lparr>classified_changes =
                    sort_key change_id (classified @ map (llm_classified llm_results) needs_llm),
                  llm_time_ms = time_ms,
                  llm_calls = 1\<rparr>)
          else
            \<lparr>classified_changes = sort_key change_id classified,
             llm_time_ms = 0,
             llm_calls = 0\<rparr>)"

section \<open>Properties of the classification\<close>

subsection \<open>What the two layers produce\<close>

definition resolved :: "Change \<Rightarrow> bool" where
  "resolved change = (fst (classify_by_rules change) \<noteq> None)"

lemma truncate_classified_change [simp]:
  "Change.truncate (classified_change change imp reason risk source) = change"
  by (cases change) (simp add: classified_change_def Change.truncate_def)

lemma change_id_classified_change [simp]:
  "change_id (classified_change change imp reason risk source) = change_id change"
  by (simp add: classified_change_def)

lemma truncate_llm_classified [simp]: "Change.truncate (llm_classified res change) = change"
  by (simp add: llm_classified_def split: option.splits)

lemma change_id_llm_classified [simp]: "change_id (llm_classified res change) = change_id change"
  by (simp add: llm_classified_def split: option.splits)

lemma rule_layer_result:
  "\<exists>cl. rule_layer changes (classified, needs_llm)
           = (classified @ cl, needs_llm @ filter (\<lambda>c. \<not> resolved c) changes)
       \<and> map Change.truncate cl = filter resolved changes
       \<and> (\<forall>cc \<in> set cl. classification_source cc = ''rule-based''
              \<and> classify_by_rules (Change.truncate cc)
                  = (Some (impact cc), reasoning cc, risk_analysis cc))"
proof (induction changes arbitrary: classified needs_llm)
  case Nil
  then show ?case by simp
next
  case (Cons change rest)
  obtain imp reason risk where r: "classify_by_rules change = (imp, reason, risk)"
    by (cases "classify_by_rules change")
  show ?case
  proof (cases imp)
    case None
    obtain cl where cl: "rule_layer rest (classified, needs_llm @ [change])
           = (classified @ cl, (needs_llm @ [change]) @ filter (\<lambda>c. \<not> resolved c) rest)"
       "map Change.truncate cl = filter resolved rest"
       "\<forall>cc \<in> set cl. classification_source cc = ''rule-based''
              \<and> classify_by_rules (Change.truncate cc)
                  = (Some (impact cc), reasoning cc, risk_analysis cc)"
      using Cons.IH by blast
    have nr: "\<not> resolved change" using r None by (simp add: resolved_def)
    show ?thesis
      using cl r None nr by (intro exI[of _ cl]) simp
  next
    case (Some i)
    define cc where "cc = classified_change change i reason risk ''rule-based''"
    obtain cl where cl: "rule_layer rest (classified @ [cc], needs_llm)
           = ((classified @ [cc]) @ cl, needs_llm @ filter (\<lambda>c. \<not> resolved c) rest)"
       "map Change.truncate cl = filter resolved rest"
       "\<forall>cc \<in> set cl. classification_source cc = ''rule-based''
              \<and> classify_by_rules (Change.truncate cc)
                  = (Some (impact cc), reasoning cc, risk_analysis cc)"
      using Cons.IH by blast
    have "classification_source cc = ''rule-based''
          \<and> classify_by_rules (Change.truncate cc) = (Some (impact cc), reasoning cc, risk_analysis cc)"
      using r Some by (simp add: cc_def) (simp add: classified_change_def)
    moreover have "resolved change" using r Some by (simp add: resolved_def)
    ultimately show ?thesis
      using cl r Some by (intro exI[of _ "cc # cl"]) (simp add: cc_def)
  qed
qed

text \<open>
  The list before it is sorted: the rule-classified changes in their input order, then the
  changes left to the service in their input order, each built from its change.
\<close>

lemma classify_changes_list:
  "\<exists>cl res. classified_changes (classify_changes lib settings_key svc changes api_key)
        = sort_key change_id (cl @ map (llm_classified res) (filter (\<lambda>c. \<not> resolved c) changes))
     \<and> map Change.truncate cl = filter resolved changes"
proof -
  obtain cl where cl: "rule_layer changes ([], []) = (cl, filter (\<lambda>c. \<not> resolved c) changes)"
    "map Change.truncate cl = filter resolved changes"
    using rule_layer_result[of changes "[]" "[]"] by auto
  show ?thesis
  proof (cases "filter (\<lambda>c. \<not> resolved c) changes = []")
    case True
    then show ?thesis using cl
      by (intro exI[of _ cl] exI[of _ Map.empty]) (simp add: classify_changes_def)
  next
    case False
    obtain res t where b: "classify_batch lib (has_client api_key settings_key) svc
        (filter (\<lambda>c. \<not> resolved c) changes) = (res, t)"
      by (cases "classify_batch lib (has_client api_key settings_key) svc
        (filter (\<lambda>c. \<not> resolved c) changes)")
    show ?thesis using cl False b
      by (intro exI[of _ cl] exI[of _ res]) (simp add: classify_changes_def)
  qed
qed

lemma mset_filter_split: "mset (filter P xs) + mset (filter (\<lambda>x. \<not> P x) xs) = mset xs"
  by (induction xs) auto

lemma classify_changes_truncate:
  "mset (map Change.truncate (classified_changes (classify_changes lib settings_key svc changes api_key)))
     = mset changes"
proof -
  obtain cl res where l: "classified_changes (classify_changes lib settings_key svc changes api_key)
        = sort_key change_id (cl @ map (llm_classified res) (filter (\<lambda>c. \<not> resolved c) changes))"
     and t: "map Change.truncate cl = filter resolved changes"
    using classify_changes_list by blast
  have "mset (map Change.truncate (cl @ map (llm_classified res) (filter (\<lambda>c. \<not> resolved c) changes)))
      = mset (filter resolved changes) + mset (filter (\<lambda>c. \<not> resolved c) changes)"
    by (simp add: t comp_def)
  then show ?thesis
    unfolding l by (simp add: mset_filter_split del: map_append)
qed

text \<open>
  \<open>classify_changes\<close> in one equation: \<open>cl\<close> are the rule-classified changes, in input
  order; the changes that no rule resolves go to \<open>classify_batch\<close> as one batch.
\<close>

lemma classify_changes_cases:
  "\<exists>cl. map Change.truncate cl = filter resolved changes
     \<and> (\<forall>cc \<in> set cl. classification_source cc = ''rule-based''
            \<and> classify_by_rules (Change.truncate cc)
                = (Some (impact cc), reasoning cc, risk_analysis cc))
     \<and> classify_changes lib settings_key svc changes api_key
         = (if filter (\<lambda>c. \<not> resolved c) changes \<noteq> []
            then \<lparr>classified_changes =
                    sort_key change_id
                      (cl @ map (llm_classified
                                  (fst (classify_batch lib (has_client api_key settings_key) svc
                                         (filter (\<lambda>c. \<not> resolved c) changes))))
                              (filter (\<lambda>c. \<not> resolved c) changes)),
                  llm_time_ms =
                    snd (classify_batch lib (has_client api_key settings_key) svc
                          (filter (\<lambda>c. \<not> resolved c) changes)),
                  llm_calls = 1\<rparr>
            else \<lparr>classified_changes = sort_key change_id cl, llm_time_ms = 0, llm_calls = 0\<rparr>)"
proof -
  obtain cl where cl: "rule_layer changes ([], []) = (cl, filter (\<lambda>c. \<not> resolved c) changes)"
    "map Change.truncate cl = filter resolved changes"
    "\<forall>cc \<in> set cl. classification_source cc = ''rule-based''
            \<and> classify_by_rules (Change.truncate cc)
                = (Some (impact cc), reasoning cc, risk_analysis cc)"
    using rule_layer_result[of changes "[]" "[]"] by auto
  show ?thesis
    using cl(2,3) by (intro exI[of _ cl]) (simp add: classify_changes_def cl(1) split: prod.splits)
qed

lemma classify_changes_ids:
  "map change_id (classified_changes (classify_changes lib settings_key svc changes api_key))
     = sort (map change_id changes)"
proof -
  let ?out = "classified_changes (classify_changes lib settings_key svc changes api_key)"
  obtain cl res where l: "?out
        = sort_key change_id (cl @ map (llm_classified res) (filter (\<lambda>c. \<not> resolved c) changes))"
    using classify_changes_list by blast
  have "mset (map change_id (map Change.truncate ?out)) = mset (map change_id changes)"
    using classify_changes_truncate[of lib settings_key svc changes api_key]
    by (metis mset_map)
  moreover have "map change_id (map Change.truncate ?out) = map change_id ?out"
    by (simp add: Change.truncate_def)
  ultimately have m: "mset (map change_id ?out) = mset (map change_id changes)" by (simp only:)
  have s: "sorted (map change_id ?out)" unfolding l by (rule sorted_sort_key)
  show ?thesis
    using m s by (intro properties_for_sort[symmetric]) simp_all
qed

subsection \<open>The ids that \<open>diff_documents\<close> assigns\<close>

lemma length_number_from [simp]: "length (number_from f cid xs) = length xs"
  by (induction xs arbitrary: cid) simp_all

lemma number_from_nth:
  assumes "\<And>c x. change_id (f c x) = c"
  shows "k < length xs \<Longrightarrow> change_id (number_from f cid xs ! k) = cid + int k"
proof (induction xs arbitrary: cid k)
  case Nil
  then show ?case by simp
next
  case (Cons x xs)
  show ?case
  proof (cases k)
    case 0
    then show ?thesis using assms by simp
  next
    case (Suc k')
    then have "k' < length xs" using Cons.prems by simp
    from Cons.IH[OF this, of "cid + 1"] show ?thesis using Suc by simp
  qed
qed

lemma change_id_match_change [simp]: "change_id (match_change cid m) = cid"
  by (cases m) simp_all

lemma opcode_changes_nth:
  assumes "k < length (opcode_changes blocks_v1 blocks_v2 cid opc)"
  shows "change_id (opcode_changes blocks_v1 blocks_v2 cid opc ! k) = cid + int k"
proof -
  obtain tg i1 i2 j1 j2 where opc: "opc = (tg, i1, i2, j1, j2)" by (cases opc)
  have d: "change_id (deleted_change c x) = c" for c x by (simp add: deleted_change_def)
  have a: "change_id (added_change c x) = c" for c x by (simp add: added_change_def)
  show ?thesis
  proof (cases tg)
    case Replace
    then show ?thesis using assms unfolding opc
      by (simp add: Let_def number_from_nth[of match_change])
  next
    case Delete
    then show ?thesis using assms unfolding opc
      by (simp add: number_from_nth[of deleted_change, OF d])
  next
    case Insert
    then show ?thesis using assms unfolding opc
      by (simp add: number_from_nth[of added_change, OF a])
  next
    case Equal
    then show ?thesis using assms unfolding opc by simp
  qed
qed

lemma opcodes_changes_nth:
  "k < length (opcodes_changes blocks_v1 blocks_v2 cid ops) \<Longrightarrow>
     change_id (opcodes_changes blocks_v1 blocks_v2 cid ops ! k) = cid + int k"
proof (induction ops arbitrary: cid k)
  case Nil
  then show ?case by simp
next
  case (Cons opc ops)
  define cs where "cs = opcode_changes blocks_v1 blocks_v2 cid opc"
  define rest where "rest = opcodes_changes blocks_v1 blocks_v2 (cid + int (length cs)) ops"
  have eq: "opcodes_changes blocks_v1 blocks_v2 cid (opc # ops) = cs @ rest"
    by (simp add: Let_def cs_def rest_def)
  show ?case
  proof (cases "k < length cs")
    case True
    then show ?thesis
      unfolding eq using opcode_changes_nth[of k blocks_v1 blocks_v2 cid opc]
      by (simp add: nth_append cs_def)
  next
    case False
    then have "k - length cs < length rest" using Cons.prems unfolding eq by simp
    then have "change_id (rest ! (k - length cs)) = (cid + int (length cs)) + int (k - length cs)"
      unfolding rest_def by (rule Cons.IH)
    then show ?thesis unfolding eq using False by (simp add: nth_append)
  qed
qed

lemma diff_documents_ids:
  "map change_id (diff_documents blocks_v1 blocks_v2)
     = map int [1..<Suc (length (diff_documents blocks_v1 blocks_v2))]"
proof (rule nth_equalityI)
  show "length (map change_id (diff_documents blocks_v1 blocks_v2))
      = length (map int [1..<Suc (length (diff_documents blocks_v1 blocks_v2))])"
    by (simp only: length_map length_upt diff_Suc_1)
next
  fix k
  assume "k < length (map change_id (diff_documents blocks_v1 blocks_v2))"
  then have k: "k < length (diff_documents blocks_v1 blocks_v2)" by simp
  then have "change_id (diff_documents blocks_v1 blocks_v2 ! k) = 1 + int k"
    unfolding diff_documents_def by (rule opcodes_changes_nth)
  moreover have "[1..<Suc (length (diff_documents blocks_v1 blocks_v2))] ! k = 1 + k"
    using k by (simp del: upt_Suc)
  ultimately show "map change_id (diff_documents blocks_v1 blocks_v2) ! k
      = map int [1..<Suc (length (diff_documents blocks_v1 blocks_v2))] ! k"
    using k by (simp del: upt_Suc)
qed

subsection \<open>Examples\<close>

text \<open>
  A library for the examples: it answers as Python does on the texts the examples use (a
  JSON array of one object, the same object on its own, a text of 2000 opening brackets,
  which is nested too deeply for \<open>json.loads\<close>, and the digit string \<open>1\<close>) and rejects
  every other text, as Python rejects texts that are not JSON or not a number.
\<close>

definition example_library :: library where
  \<open>example_library =
     \<lparr>json_loads =
        (\<lambda>s. if s = ''[{"id": 1, "impact": "low"}]''
             then Loaded (JArr [JObj [(''id'', JInt 1), (''impact'', JStr ''low'')]])
             else if s = ''{"id": 1, "impact": "low"}''
             then Loaded (JObj [(''id'', JInt 1), (''impact'', JStr ''low'')])
             else if length s = 2000 \<and> list_all (\<lambda>c. c = CHR ''['') s
             then OtherError (''maximum recursion depth exceeded ''
                              @ ''while decoding a JSON array from a unicode string'')
             else JSONDecodeError),
      int_of_str =
        (\<lambda>s. if s = ''1'' then Inr 1
             else Inl (''invalid literal for int() with base 10: '' @ quoted s))\<rparr>\<close>

subsection \<open>The fields of the edit are kept\<close>

text \<open>
  Claim C10. \<open>Change.truncate\<close> takes a \<open>ClassifiedChange\<close> to the \<open>Change\<close> with the same
  \<open>change_id\<close>, \<open>change_type\<close>, \<open>block_type\<close>, \<open>location\<close>, \<open>original\<close>, \<open>modified\<close>,
  \<open>similarity\<close>, \<open>diff_text\<close> and \<open>word_changes\<close>, dropping \<open>impact\<close>, \<open>reasoning\<close>,
  \<open>risk_analysis\<close> and \<open>classification_source\<close>. For every list of changes and whatever the
  service does, the classified changes without these four fields are the input changes,
  each as often as it was given; the sort only changes their order.
\<close>

theorem classification_keeps_edit_fields:
  "mset (map Change.truncate
           (classified_changes (classify_changes lib settings_key svc changes api_key)))
     = mset changes"
  by (rule classify_changes_truncate)

subsection \<open>One classified change per edit, in the order of the ids\<close>

lemma map_insort_key:
  assumes "\<And>y. g (f y) = k y"
  shows "map f (insort_key k x xs) = insort_key g (f x) (map f xs)"
  by (induction xs) (simp_all add: assms)

lemma map_sort_key:
  assumes "\<And>y. g (f y) = k y"
  shows "map f (sort_key k xs) = sort_key g (map f xs)"
  by (induction xs) (simp_all add: map_insort_key[of g f k, OF assms])

lemma filter_key_distinct:
  "distinct (map f zs) \<Longrightarrow> k \<in> set zs \<Longrightarrow> filter (\<lambda>x. f k = f x) zs = [k]"
proof (induction zs)
  case Nil
  then show ?case by simp
next
  case (Cons z zs)
  show ?case
  proof (cases "k = z")
    case True
    have "filter (\<lambda>x. f z = f x) zs = []"
      using Cons.prems(1) by (auto simp: filter_empty_conv)
    then show ?thesis using True by simp
  next
    case False
    then have "k \<in> set zs" using Cons.prems(2) by simp
    moreover have "f k \<in> f ` set zs" using calculation by simp
    then have "f k \<noteq> f z" using Cons.prems(1) by auto
    ultimately show ?thesis using Cons by simp
  qed
qed

lemma sort_key_distinct_unique:
  assumes "mset ys = mset xs" and "distinct (map f xs)"
  shows "sort_key f ys = sort_key f xs"
proof (rule properties_for_sort_key[symmetric])
  show "mset (sort_key f ys) = mset xs" using assms(1) by simp
  show "sorted (map f (sort_key f ys))" by (rule sorted_sort_key)
  fix k
  assume "k \<in> set (sort_key f ys)"
  then have k: "k \<in> set xs" using assms(1) by (metis mset_eq_setD set_sort)
  have "mset (map f (sort_key f ys)) = mset (map f xs)" using assms(1) by simp
  then have d: "distinct (map f (sort_key f ys))"
    using assms(2) by (metis mset_eq_imp_distinct_iff)
  have "k \<in> set (sort_key f ys)" using k assms(1) by (metis mset_eq_setD set_sort)
  then show "filter (\<lambda>x. f k = f x) (sort_key f ys) = filter (\<lambda>x. f k = f x) xs"
    using filter_key_distinct[OF d] filter_key_distinct[OF assms(2) k] by simp
qed

lemma classification_source_llm_classified [simp]:
  "classification_source (llm_classified res change) = ''llm''"
  by (simp add: llm_classified_def classified_change_def split: option.splits)

lemma classify_changes_order:
  "map Change.truncate (classified_changes (classify_changes lib settings_key svc changes api_key))
     = sort_key change_id (filter resolved changes @ filter (\<lambda>c. \<not> resolved c) changes)"
proof -
  obtain cl res where l: "classified_changes (classify_changes lib settings_key svc changes api_key)
        = sort_key change_id (cl @ map (llm_classified res) (filter (\<lambda>c. \<not> resolved c) changes))"
     and t: "map Change.truncate cl = filter resolved changes"
    using classify_changes_list by blast
  have "map Change.truncate (classified_changes (classify_changes lib settings_key svc changes api_key))
      = sort_key change_id
          (map Change.truncate (cl @ map (llm_classified res) (filter (\<lambda>c. \<not> resolved c) changes)))"
    unfolding l by (rule map_sort_key) (simp add: Change.truncate_def)
  also have "map Change.truncate (cl @ map (llm_classified res) (filter (\<lambda>c. \<not> resolved c) changes))
      = filter resolved changes @ filter (\<lambda>c. \<not> resolved c) changes"
    by (simp add: t comp_def)
  finally show ?thesis .
qed

lemma classify_changes_sources:
  assumes "cc \<in> set (classified_changes (classify_changes lib settings_key svc changes api_key))"
  shows "classification_source cc
      = (if resolved (Change.truncate cc) then ''rule-based'' else ''llm'')"
proof -
  let ?nl = "filter (\<lambda>c. \<not> resolved c) changes"
  obtain cl where t: "map Change.truncate cl = filter resolved changes"
    and src: "\<forall>cc \<in> set cl. classification_source cc = ''rule-based''
            \<and> classify_by_rules (Change.truncate cc)
                = (Some (impact cc), reasoning cc, risk_analysis cc)"
    and eq: "classify_changes lib settings_key svc changes api_key
         = (if ?nl \<noteq> []
            then \<lparr>classified_changes =
                    sort_key change_id
                      (cl @ map (llm_classified
                                  (fst (classify_batch lib (has_client api_key settings_key) svc ?nl)))
                              ?nl),
                  llm_time_ms = snd (classify_batch lib (has_client api_key settings_key) svc ?nl),
                  llm_calls = 1\<rparr>
            else \<lparr>classified_changes = sort_key change_id cl, llm_time_ms = 0, llm_calls = 0\<rparr>)"
    using classify_changes_cases[of changes lib settings_key svc api_key] by blast
  have "cc \<in> set cl
      \<or> (\<exists>c \<in> set ?nl. cc = llm_classified
             (fst (classify_batch lib (has_client api_key settings_key) svc ?nl)) c)"
    using assms unfolding eq by (auto split: if_splits)
  then show ?thesis
  proof
    assume c: "cc \<in> set cl"
    then have "Change.truncate cc \<in> set (filter resolved changes)"
      unfolding t[symmetric] by simp
    then show ?thesis using src c by simp
  next
    assume "\<exists>c \<in> set ?nl. cc = llm_classified
             (fst (classify_batch lib (has_client api_key settings_key) svc ?nl)) c"
    then show ?thesis by auto
  qed
qed

lemma diff_documents_ids_strict:
  "sorted_wrt (<) (map change_id (diff_documents blocks_v1 blocks_v2))"
  unfolding diff_documents_ids
  by (simp add: sorted_wrt_map del: upt_Suc)

text \<open>
  Claim C3. For every list of changes and whatever the service does (it answers, it
  raises, its reply leaves ids out), \<open>classified_changes\<close> has one entry per input change
  and is sorted ascending by \<open>change_id\<close>: without the four fields of the classification it
  is the stable sort by id of the input changes, the rule-classified ones (source
  \<open>rule-based\<close>) and the ones left to the service (source \<open>llm\<close>) merged by id alone. The
  ids of edits are pairwise distinct, assigned 1, 2, ... in the order of emission: for
  every list with distinct ids the order is strictly ascending and the result is the
  input sorted by id, and for every pair of documents the changes of \<open>diff_documents\<close>
  come back with the ids 1, 2, ... without a gap, strictly ascending, each change in its
  place.
\<close>

theorem classified_changes_sorted_by_id:
  "length (classified_changes (classify_changes lib settings_key svc changes api_key))
     = length changes
   \<and> map change_id (classified_changes (classify_changes lib settings_key svc changes api_key))
     = sort (map change_id changes)
   \<and> sorted (map change_id
               (classified_changes (classify_changes lib settings_key svc changes api_key)))
   \<and> map Change.truncate
        (classified_changes (classify_changes lib settings_key svc changes api_key))
     = sort_key change_id (filter resolved changes @ filter (\<lambda>c. \<not> resolved c) changes)
   \<and> (\<forall>cc \<in> set (classified_changes (classify_changes lib settings_key svc changes api_key)).
         classification_source cc
           = (if resolved (Change.truncate cc) then ''rule-based'' else ''llm''))
   \<and> (distinct (map change_id changes)
      \<longrightarrow> sorted_wrt (<)
            (map change_id
              (classified_changes (classify_changes lib settings_key svc changes api_key)))
        \<and> map Change.truncate
            (classified_changes (classify_changes lib settings_key svc changes api_key))
          = sort_key change_id changes)
   \<and> map change_id
        (classified_changes
          (classify_changes lib settings_key svc (diff_documents blocks_v1 blocks_v2) api_key))
     = map int [1..<Suc (length (diff_documents blocks_v1 blocks_v2))]
   \<and> sorted_wrt (<)
        (map change_id
          (classified_changes
            (classify_changes lib settings_key svc (diff_documents blocks_v1 blocks_v2) api_key)))
   \<and> map Change.truncate
        (classified_changes
          (classify_changes lib settings_key svc (diff_documents blocks_v1 blocks_v2) api_key))
     = diff_documents blocks_v1 blocks_v2"
proof -
  let ?out = "\<lambda>cs. classified_changes (classify_changes lib settings_key svc cs api_key)"
  let ?d = "diff_documents blocks_v1 blocks_v2"
  note ids = classify_changes_ids[of lib settings_key svc _ api_key]
  have len: "length (?out changes) = length changes"
    using arg_cong[OF ids[of changes], of length] by simp
  have srt: "sorted (map change_id (?out changes))"
    unfolding ids by simp
  note ord = classify_changes_order[of lib settings_key svc _ api_key]
  have src: "\<forall>cc \<in> set (?out changes). classification_source cc
           = (if resolved (Change.truncate cc) then ''rule-based'' else ''llm'')"
    using classify_changes_sources by blast
  have strict: "sorted_wrt (<) (map change_id (?out cs))
      \<and> map Change.truncate (?out cs) = sort_key change_id cs"
    if "distinct (map change_id cs)" for cs
  proof -
    have "mset (filter resolved cs @ filter (\<lambda>c. \<not> resolved c) cs) = mset cs"
      by (simp add: mset_filter_split)
    then have "sort_key change_id (filter resolved cs @ filter (\<lambda>c. \<not> resolved c) cs)
        = sort_key change_id cs"
      using that by (rule sort_key_distinct_unique)
    moreover have "sorted_wrt (<) (map change_id (?out cs))"
      unfolding ids strict_sorted_iff using that by simp
    ultimately show ?thesis unfolding ord by simp
  qed
  have sd: "sorted_wrt (<) (map change_id ?d)" by (rule diff_documents_ids_strict)
  then have dd: "distinct (map change_id ?d)" and sd': "sorted (map change_id ?d)"
    using strict_sorted_iff by blast+
  have e1: "map change_id (?out ?d) = map int [1..<Suc (length ?d)]"
    unfolding ids using sd' diff_documents_ids by (simp add: sorted_sort_id)
  have e3: "map Change.truncate (?out ?d) = ?d"
    using strict[OF dd] sd' sort_key_id_if_sorted by metis
  show ?thesis using len ids[of changes] srt ord[of changes] src strict[of changes] e1 strict[OF dd] e3
    by blast
qed

text \<open>
  Two edits given with the ids 2 and 1, both left to a service that raises: they come out
  in the order 1, 2.
\<close>

theorem classified_changes_sorted_by_id_witness:
  "distinct (map change_id [deleted_change 2 (paragraph_block 1 ''b''),
                            deleted_change 1 (paragraph_block 0 ''a'')])
   \<and> sorted_wrt (<)
        (map change_id
          (classified_changes
            (classify_changes example_library [] (Raises [])
              [deleted_change 2 (paragraph_block 1 ''b''),
               deleted_change 1 (paragraph_block 0 ''a'')] None)))
   \<and> map Change.truncate
        (classified_changes
          (classify_changes example_library [] (Raises [])
            [deleted_change 2 (paragraph_block 1 ''b''),
             deleted_change 1 (paragraph_block 0 ''a'')] None))
     = [deleted_change 1 (paragraph_block 0 ''a''), deleted_change 2 (paragraph_block 1 ''b'')]"
proof -
  let ?cs = "[deleted_change 2 (paragraph_block 1 ''b''),
              deleted_change 1 (paragraph_block 0 ''a'')]"
  have d: "distinct (map change_id ?cs)" by (simp add: deleted_change_def)
  have s: "sort_key change_id ?cs
      = [deleted_change 1 (paragraph_block 0 ''a''), deleted_change 2 (paragraph_block 1 ''b'')]"
    by (simp add: deleted_change_def)
  have "sorted_wrt (<)
        (map change_id
          (classified_changes (classify_changes example_library [] (Raises []) ?cs None)))"
    and "map Change.truncate
          (classified_changes (classify_changes example_library [] (Raises []) ?cs None))
        = sort_key change_id ?cs"
    using classified_changes_sorted_by_id[of example_library "[]" "Raises []" ?cs None "[]" "[]"] d
    by blast+
  then show ?thesis using d s by simp
qed


subsection \<open>The batch call and its failures\<close>

lemma all_changes_lookup:
  "c \<in> set changes \<Longrightarrow> all_changes changes v (Some (change_id c)) = Some v"
  by (induction changes) (auto simp: all_changes_def)

lemma classify_batch_no_client:
  assumes "changes \<noteq> []"
  shows "classify_batch lib False svc changes
     = (all_changes changes
          (MEDIUM, ''LLM khong kha dung - mac dinh muc trung binh'', ''Can xem xet thu cong''), 0)"
  using assms by (simp add: classify_batch_def)

text \<open>
  The changes that \<open>classify_changes\<close> leaves to the service all appear in its result, built
  by \<open>llm_classified\<close> from what \<open>classify_batch\<close> returned.
\<close>

lemma classify_changes_unresolved:
  assumes "c \<in> set changes" and "\<not> resolved c"
  shows "llm_classified
           (fst (classify_batch lib (has_client api_key settings_key) svc
                  (filter (\<lambda>c. \<not> resolved c) changes))) c
         \<in> set (classified_changes (classify_changes lib settings_key svc changes api_key))
       \<and> llm_time_ms (classify_changes lib settings_key svc changes api_key)
           = snd (classify_batch lib (has_client api_key settings_key) svc
                   (filter (\<lambda>c. \<not> resolved c) changes))
       \<and> llm_calls (classify_changes lib settings_key svc changes api_key) = 1"
proof -
  have ne: "filter (\<lambda>c. \<not> resolved c) changes \<noteq> []"
    using assms by (auto simp: filter_empty_conv)
  obtain cl where "classify_changes lib settings_key svc changes api_key
         = \<lparr>classified_changes =
                    sort_key change_id
                      (cl @ map (llm_classified
                                  (fst (classify_batch lib (has_client api_key settings_key) svc
                                         (filter (\<lambda>c. \<not> resolved c) changes))))
                              (filter (\<lambda>c. \<not> resolved c) changes)),
                  llm_time_ms =
                    snd (classify_batch lib (has_client api_key settings_key) svc
                          (filter (\<lambda>c. \<not> resolved c) changes)),
                  llm_calls = 1\<rparr>"
    using classify_changes_cases[of changes lib settings_key svc api_key] ne by auto
  then show ?thesis using assms by simp
qed

lemma no_client_pipeline:
  assumes "\<not> has_client api_key settings_key" and "c \<in> set changes" and "\<not> resolved c"
  shows "classified_change c MEDIUM ''LLM khong kha dung - mac dinh muc trung binh''
           ''Can xem xet thu cong'' ''llm''
         \<in> set (classified_changes (classify_changes lib settings_key svc changes api_key))
       \<and> llm_time_ms (classify_changes lib settings_key svc changes api_key) = 0
       \<and> llm_calls (classify_changes lib settings_key svc changes api_key) = 1"
proof -
  have ne: "filter (\<lambda>c. \<not> resolved c) changes \<noteq> []"
    using assms by (auto simp: filter_empty_conv)
  have c: "c \<in> set (filter (\<lambda>c. \<not> resolved c) changes)" using assms by simp
  show ?thesis
    using classify_changes_unresolved[OF assms(2,3), of lib api_key settings_key svc]
      assms(1) all_changes_lookup[OF c]
    by (simp add: classify_batch_no_client[OF ne] llm_classified_def)
qed

lemma note_unresolved: "\<not> resolved (deleted_change 1 (paragraph_block 0 ''Note''))"
  unfolding resolved_def by code_simp

text \<open>
  Claim C2, the code at the failing input. No credential is configured (\<open>api_key\<close> and
  \<open>settings.OPENAI_API_KEY\<close> are empty) and the one edit, a deleted paragraph \<open>Note\<close>, is
  not resolved by the rules. The edit is classified \<open>MEDIUM\<close> with the fixed reasoning and
  \<open>llm_time_ms\<close> is 0, as the claim says, but \<open>llm_calls\<close> is 1, where the claim, and the
  comment of the field (the number of calls made), say 0: no call is made without a client.
\<close>

theorem no_client_reports_one_call:
  "classified_changes
     (classify_changes example_library [] (Raises [])
        [deleted_change 1 (paragraph_block 0 ''Note'')] (Some []))
     = [classified_change (deleted_change 1 (paragraph_block 0 ''Note'')) MEDIUM
          ''LLM khong kha dung - mac dinh muc trung binh'' ''Can xem xet thu cong'' ''llm'']
   \<and> llm_time_ms
       (classify_changes example_library [] (Raises [])
          [deleted_change 1 (paragraph_block 0 ''Note'')] (Some [])) = 0
   \<and> llm_calls
       (classify_changes example_library [] (Raises [])
          [deleted_change 1 (paragraph_block 0 ''Note'')] (Some [])) = 1"
proof -
  let ?c = "deleted_change 1 (paragraph_block 0 ''Note'')"
  let ?r = "classify_changes example_library [] (Raises []) [?c] (Some [])"
  have nc: "\<not> has_client (Some []) []" by (simp add: has_client_def)
  have m: "classified_change ?c MEDIUM ''LLM khong kha dung - mac dinh muc trung binh''
           ''Can xem xet thu cong'' ''llm'' \<in> set (classified_changes ?r)"
    and t: "llm_time_ms ?r = 0" and n: "llm_calls ?r = 1"
    using no_client_pipeline[OF nc _ note_unresolved, of "[?c]" example_library "Raises []"]
    by simp_all
  have "length (classified_changes ?r) = 1"
    using arg_cong[OF classify_changes_ids[of example_library "[]" "Raises []" "[?c]" "Some []"],
        of length] by simp
  then obtain x where "classified_changes ?r = [x]"
    by (cases "classified_changes ?r") auto
  then show ?thesis using m t n by simp
qed

lemma classify_batch_try_raises:
  assumes "svc = Raises e
       \<or> (\<exists>t. svc = Responds t None \<and> e = quoted ''NoneType'' @ '' object is not subscriptable'')
       \<or> (\<exists>t response_text. svc = Responds t (Some response_text)
             \<and> (json_loads lib (strip_fences response_text) = OtherError e
                \<or> parse_response lib response_text = Inl e))"
  shows "classify_batch_try lib svc = Inl e"
  using assms by (auto simp: classify_batch_try_def parse_response_def)

lemma classify_batch_raised:
  assumes "changes \<noteq> []" and "classify_batch_try lib svc = Inl e"
  shows "classify_batch lib True svc changes = llm_failed changes e"
  using assms by (simp add: classify_batch_def)

lemma classify_batch_try_undecodable:
  assumes "json_loads lib (strip_fences response_text) = JSONDecodeError"
  shows "classify_batch_try lib (Responds t (Some response_text)) = Inr (Map.empty, t)"
  using assms by (simp add: classify_batch_try_def parse_response_def)

lemma classify_batch_undecodable:
  assumes "changes \<noteq> []" and "json_loads lib (strip_fences response_text) = JSONDecodeError"
  shows "classify_batch lib True (Responds t (Some response_text)) changes = (Map.empty, t)"
  using assms by (simp add: classify_batch_def classify_batch_try_undecodable)

text \<open>
  Claim C1, as amended. Let the batch be non-empty and a client exist. When the call or
  the reading of the reply raises, when the content of the reply is \<open>None\<close>, when
  \<open>json.loads\<close> raises an exception other than \<open>JSONDecodeError\<close>, or when
  \<open>_parse_response\<close> raises on a reply that \<open>json.loads\<close> accepted (the value is not
  iterable, an item is not a dictionary, an id that \<open>int()\<close> rejects, an impact that is not
  a string), the exception leaves the \<open>try\<close> block and the handler makes it the result:
  \<open>classify_batch\<close> returns 0 as the service time and, for every change of the batch,
  \<open>MEDIUM\<close> with the reasoning made of the first 50 characters of the error;
  \<open>classify_changes\<close> then reports the time 0 and gives every change of the batch that
  classification, with the source \<open>llm\<close>. When \<open>json.loads\<close> raises \<open>JSONDecodeError\<close>,
  \<open>_parse_response\<close> catches it itself and returns the empty dictionary: the \<open>try\<close> block
  returns it with the measured time, so does \<open>classify_batch\<close>, and \<open>classify_changes\<close>
  reports that time and gives every change of the batch \<open>MEDIUM\<close> with the fixed reasoning
  for an id that is missing from the reply.
\<close>

theorem service_failure_degrades:
  assumes "changes \<noteq> []"
  shows
    "(svc = Raises e
       \<or> (\<exists>t. svc = Responds t None \<and> e = quoted ''NoneType'' @ '' object is not subscriptable'')
       \<or> (\<exists>t response_text. svc = Responds t (Some response_text)
             \<and> (json_loads lib (strip_fences response_text) = OtherError e
                \<or> parse_response lib response_text = Inl e))
      \<longrightarrow> classify_batch_try lib svc = Inl e
        \<and> classify_batch lib True svc changes = llm_failed changes e
        \<and> snd (classify_batch lib True svc changes) = 0
        \<and> (\<forall>c \<in> set changes.
              fst (classify_batch lib True svc changes) (Some (change_id c))
                = Some (MEDIUM, ''Loi LLM: '' @ take 50 e, ''Can xem xet thu cong''))
        \<and> (\<forall>api_key settings_key edits. \<forall>c \<in> set edits.
              has_client api_key settings_key
              \<and> filter (\<lambda>c. \<not> resolved c) edits = changes \<and> \<not> resolved c
              \<longrightarrow> classified_change c MEDIUM (''Loi LLM: '' @ take 50 e)
                    ''Can xem xet thu cong'' ''llm''
                  \<in> set (classified_changes (classify_changes lib settings_key svc edits api_key))
                \<and> llm_time_ms (classify_changes lib settings_key svc edits api_key) = 0))
     \<and> (json_loads lib (strip_fences response_text) = JSONDecodeError
      \<longrightarrow> classify_batch_try lib (Responds t (Some response_text)) = Inr (Map.empty, t)
        \<and> classify_batch lib True (Responds t (Some response_text)) changes = (Map.empty, t)
        \<and> (\<forall>api_key settings_key edits. \<forall>c \<in> set edits.
              has_client api_key settings_key
              \<and> filter (\<lambda>c. \<not> resolved c) edits = changes \<and> \<not> resolved c
              \<longrightarrow> classified_change c MEDIUM ''Khong the phan loai'' ''Can xem xet thu cong''
                    ''llm''
                  \<in> set (classified_changes
                          (classify_changes lib settings_key (Responds t (Some response_text))
                             edits api_key))
                \<and> llm_time_ms
                    (classify_changes lib settings_key (Responds t (Some response_text))
                       edits api_key) = t))"
proof -
  have A: "classify_batch_try lib svc = Inl e
        \<and> classify_batch lib True svc changes = llm_failed changes e
        \<and> snd (classify_batch lib True svc changes) = 0
        \<and> (\<forall>c \<in> set changes.
              fst (classify_batch lib True svc changes) (Some (change_id c))
                = Some (MEDIUM, ''Loi LLM: '' @ take 50 e, ''Can xem xet thu cong''))"
    if "svc = Raises e
       \<or> (\<exists>t. svc = Responds t None \<and> e = quoted ''NoneType'' @ '' object is not subscriptable'')
       \<or> (\<exists>t response_text. svc = Responds t (Some response_text)
             \<and> (json_loads lib (strip_fences response_text) = OtherError e
                \<or> parse_response lib response_text = Inl e))"
    unfolding classify_batch_raised[OF assms classify_batch_try_raises[OF that]]
    using classify_batch_try_raises[OF that]
    by (simp add: llm_failed_def all_changes_lookup)
  have A': "classified_change c MEDIUM (''Loi LLM: '' @ take 50 e) ''Can xem xet thu cong'' ''llm''
                  \<in> set (classified_changes (classify_changes lib settings_key svc edits api_key))
                \<and> llm_time_ms (classify_changes lib settings_key svc edits api_key) = 0"
    if f: "svc = Raises e
       \<or> (\<exists>t. svc = Responds t None \<and> e = quoted ''NoneType'' @ '' object is not subscriptable'')
       \<or> (\<exists>t response_text. svc = Responds t (Some response_text)
             \<and> (json_loads lib (strip_fences response_text) = OtherError e
                \<or> parse_response lib response_text = Inl e))"
      and "c \<in> set edits" "has_client api_key settings_key"
      "filter (\<lambda>c. \<not> resolved c) edits = changes" "\<not> resolved c"
    for api_key settings_key edits c
  proof -
    have c: "c \<in> set changes" using that by auto
    have "fst (classify_batch lib True svc changes) (Some (change_id c))
        = Some (MEDIUM, ''Loi LLM: '' @ take 50 e, ''Can xem xet thu cong'')"
      and "snd (classify_batch lib True svc changes) = 0"
      using A[OF f] c by blast+
    then show ?thesis
      using classify_changes_unresolved[OF that(2,5), of lib api_key settings_key svc] that(3,4)
      by (simp add: llm_classified_def)
  qed
  have B: "classify_batch_try lib (Responds t (Some response_text)) = Inr (Map.empty, t)
        \<and> classify_batch lib True (Responds t (Some response_text)) changes = (Map.empty, t)"
    if "json_loads lib (strip_fences response_text) = JSONDecodeError"
    using classify_batch_undecodable[OF assms that] classify_batch_try_undecodable[OF that]
    by simp
  have C: "classified_change c MEDIUM ''Khong the phan loai'' ''Can xem xet thu cong'' ''llm''
                  \<in> set (classified_changes
                          (classify_changes lib settings_key (Responds t (Some response_text))
                             edits api_key))
                \<and> llm_time_ms
                    (classify_changes lib settings_key (Responds t (Some response_text))
                       edits api_key) = t"
    if "json_loads lib (strip_fences response_text) = JSONDecodeError" "c \<in> set edits"
      "has_client api_key settings_key" "filter (\<lambda>c. \<not> resolved c) edits = changes"
      "\<not> resolved c"
    for api_key settings_key edits c
    using classify_changes_unresolved[OF that(2,5), of lib api_key settings_key
        "Responds t (Some response_text)"] that(3,4) B[OF that(1)]
    by (simp add: llm_classified_def)
  show ?thesis using A A' B C by blast
qed

text \<open>
  Three replies after 1200 ms. A JSON object, not an array: iterating it gives its keys,
  and a \<open>str\<close> has no method \<open>get\<close>. A text of 2000 opening brackets, on which
  \<open>json.loads\<close> raises a \<open>RecursionError\<close>. And a text that is not JSON.
\<close>

definition deep_text :: string where
  "deep_text = replicate 2000 (CHR ''['')"

lemma parse_object_reply:
  "isl (parse_response example_library ''{\"id\": 1, \"impact\": \"low\"}'')
   \<and> projl (parse_response example_library ''{\"id\": 1, \"impact\": \"low\"}'')
       = quoted ''str'' @ '' object has no attribute '' @ quoted ''get''"
  by code_simp

lemma sorry_undecodable: "json_loads example_library (strip_fences ''Sorry'') = JSONDecodeError"
  by code_simp

lemma py_strip_id:
  assumes "s \<noteq> []" and "\<not> py_isspace (hd s)" and "\<not> py_isspace (last s)"
  shows "py_strip s = s"
proof -
  have "dropWhile py_isspace s = s" using assms(2) by (cases s) simp_all
  moreover have "dropWhile py_isspace (rev s) = rev s"
    using assms(1,3) by (cases "rev s") (simp_all add: hd_rev[symmetric])
  ultimately show ?thesis by (simp add: py_strip_def)
qed

lemma startswith_hd: "startswith s p \<Longrightarrow> p \<noteq> [] \<Longrightarrow> hd s = hd p"
  by (cases s; cases p) (auto simp: startswith_def)

lemma endswith_last: "endswith s p \<Longrightarrow> p \<noteq> [] \<Longrightarrow> last s = last p"
proof -
  assume e: "endswith s p" and p: "p \<noteq> []"
  then have "length s - length p < length s" by (cases p) (auto simp: endswith_def)
  then have "last (drop (length s - length p) s) = last s" by (rule last_drop)
  then show ?thesis using e by (simp add: endswith_def)
qed

lemma strip_fences_id:
  assumes "s \<noteq> []" and "\<not> py_isspace (hd s)" and "\<not> py_isspace (last s)"
    and "hd s \<noteq> CHR 0x60" and "last s \<noteq> CHR 0x60"
  shows "strip_fences s = s"
proof -
  have a: "\<not> startswith s ''```json''" using startswith_hd[of s "''```json''"] assms(4) by auto
  have b: "\<not> startswith s ''```''" using startswith_hd[of s "''```''"] assms(4) by auto
  have c: "\<not> endswith s ''```''" using endswith_last[of s "''```''"] assms(5) by auto
  show ?thesis
    by (simp add: strip_fences_def Let_def py_strip_id[OF assms(1,2,3)] a b c)
qed

lemma bracket_plain: "\<not> py_isspace (CHR ''['') \<and> CHR ''['' \<noteq> CHR 0x60"
  by code_simp

lemma deep_text_raises:
  "json_loads example_library (strip_fences deep_text)
     = OtherError (''maximum recursion depth exceeded ''
                   @ ''while decoding a JSON array from a unicode string'')"
proof -
  have ne: "deep_text \<noteq> []" and h: "hd deep_text = CHR ''[''" and l: "last deep_text = CHR ''[''"
    and len: "length deep_text = 2000" and all: "list_all (\<lambda>c. c = CHR ''['') deep_text"
    unfolding deep_text_def by (auto simp: list_all_iff)
  have s: "strip_fences deep_text = deep_text"
    using bracket_plain by (intro strip_fences_id) (simp_all add: ne h l)
  have "deep_text \<noteq> t" if "length t < 2000" for t using len that by auto
  then show ?thesis
    unfolding s by (simp add: example_library_def len all)
qed

theorem service_failure_degrades_witness:
  "snd (classify_batch example_library True
          (Responds 1200 (Some ''{\"id\": 1, \"impact\": \"low\"}''))
          [deleted_change 1 (paragraph_block 0 ''Note'')]) = 0
   \<and> fst (classify_batch example_library True
          (Responds 1200 (Some ''{\"id\": 1, \"impact\": \"low\"}''))
          [deleted_change 1 (paragraph_block 0 ''Note'')]) (Some 1)
       = Some (MEDIUM,
               ''Loi LLM: '' @ quoted ''str'' @ '' object has no attribute '' @ quoted ''get'',
               ''Can xem xet thu cong'')
   \<and> snd (classify_batch example_library True (Responds 1200 (Some deep_text))
          [deleted_change 1 (paragraph_block 0 ''Note'')]) = 0
   \<and> fst (classify_batch example_library True (Responds 1200 (Some deep_text))
          [deleted_change 1 (paragraph_block 0 ''Note'')]) (Some 1)
       = Some (MEDIUM, ''Loi LLM: maximum recursion depth exceeded while decoding a '',
               ''Can xem xet thu cong'')
   \<and> classify_batch example_library True (Responds 1200 (Some ''Sorry''))
          [deleted_change 1 (paragraph_block 0 ''Note'')] = (Map.empty, 1200)
   \<and> llm_time_ms (classify_changes example_library ''k'' (Responds 1200 (Some ''Sorry''))
          [deleted_change 1 (paragraph_block 0 ''Note'')] None) = 1200"
proof -
  let ?c = "deleted_change 1 (paragraph_block 0 ''Note'')"
  let ?e = "quoted ''str'' @ '' object has no attribute '' @ quoted ''get''"
  let ?r = "''maximum recursion depth exceeded ''
            @ ''while decoding a JSON array from a unicode string''"
  have p: "parse_response example_library ''{\"id\": 1, \"impact\": \"low\"}'' = Inl ?e"
    using parse_object_reply
    by (cases "parse_response example_library ''{\"id\": 1, \"impact\": \"low\"}''") auto
  have f: "filter (\<lambda>c. \<not> resolved c) [?c] = [?c]" using note_unresolved by simp
  have h: "has_client None ''k''" by (simp add: has_client_def)
  have l: "length ?e \<le> 50" by (simp add: quoted_def)
  have i: "change_id ?c = 1" by (simp add: deleted_change_def)
  have one: "snd (classify_batch example_library True
          (Responds 1200 (Some ''{\"id\": 1, \"impact\": \"low\"}'')) [?c]) = 0
     \<and> fst (classify_batch example_library True
          (Responds 1200 (Some ''{\"id\": 1, \"impact\": \"low\"}'')) [?c]) (Some 1)
       = Some (MEDIUM, ''Loi LLM: '' @ ?e, ''Can xem xet thu cong'')"
  proof -
    let ?svc = "Responds 1200 (Some ''{\"id\": 1, \"impact\": \"low\"}'')"
    have hyp: "?svc = Raises ?e
       \<or> (\<exists>t. ?svc = Responds t None
              \<and> ?e = quoted ''NoneType'' @ '' object is not subscriptable'')
       \<or> (\<exists>t response_text. ?svc = Responds t (Some response_text)
             \<and> (json_loads example_library (strip_fences response_text) = OtherError ?e
                \<or> parse_response example_library response_text = Inl ?e))"
      using p by blast
    have "snd (classify_batch example_library True ?svc [?c]) = 0"
      and "\<forall>c \<in> set [?c]. fst (classify_batch example_library True ?svc [?c]) (Some (change_id c))
                = Some (MEDIUM, ''Loi LLM: '' @ take 50 ?e, ''Can xem xet thu cong'')"
      using service_failure_degrades[of "[?c]" ?svc ?e example_library] hyp by blast+
    then show ?thesis using l i by simp
  qed
  have two: "snd (classify_batch example_library True (Responds 1200 (Some deep_text)) [?c]) = 0
     \<and> fst (classify_batch example_library True (Responds 1200 (Some deep_text)) [?c]) (Some 1)
       = Some (MEDIUM, ''Loi LLM: '' @ take 50 ?r, ''Can xem xet thu cong'')"
  proof -
    let ?svc = "Responds 1200 (Some deep_text)"
    have hyp: "?svc = Raises ?r
       \<or> (\<exists>t. ?svc = Responds t None
              \<and> ?r = quoted ''NoneType'' @ '' object is not subscriptable'')
       \<or> (\<exists>t response_text. ?svc = Responds t (Some response_text)
             \<and> (json_loads example_library (strip_fences response_text) = OtherError ?r
                \<or> parse_response example_library response_text = Inl ?r))"
      using deep_text_raises by blast
    have "snd (classify_batch example_library True ?svc [?c]) = 0"
      and "\<forall>c \<in> set [?c]. fst (classify_batch example_library True ?svc [?c]) (Some (change_id c))
                = Some (MEDIUM, ''Loi LLM: '' @ take 50 ?r, ''Can xem xet thu cong'')"
      using service_failure_degrades[of "[?c]" ?svc ?r example_library] hyp by blast+
    then show ?thesis using i by simp
  qed
  have three: "classify_batch example_library True (Responds 1200 (Some ''Sorry'')) [?c]
        = (Map.empty, 1200)
     \<and> llm_time_ms (classify_changes example_library ''k'' (Responds 1200 (Some ''Sorry''))
          [?c] None) = 1200"
  proof -
    have "classify_batch example_library True (Responds 1200 (Some ''Sorry'')) [?c]
        = (Map.empty, 1200)"
      and "\<forall>api_key settings_key edits. \<forall>c \<in> set edits.
              has_client api_key settings_key
              \<and> filter (\<lambda>c. \<not> resolved c) edits = [?c] \<and> \<not> resolved c
              \<longrightarrow> llm_time_ms
                    (classify_changes example_library settings_key
                       (Responds 1200 (Some ''Sorry'')) edits api_key) = 1200"
      using service_failure_degrades[of "[?c]" "Raises []" "[]" example_library "''Sorry''" 1200]
        sorry_undecodable by blast+
    then show ?thesis using f h note_unresolved by auto
  qed
  show ?thesis using one two three by simp
qed

text \<open>
  The claim as stated fails for a reply that is not JSON: the service time reported is the
  measured one, not 0, and \<open>classify_batch\<close> returns no entry for the edit, so that its
  reasoning is the fixed one for a missing id, not one derived from the error.
\<close>

theorem undecodable_reply_counterexample:
  "snd (classify_batch example_library True (Responds 1200 (Some ''Sorry''))
          [deleted_change 1 (paragraph_block 0 ''Note'')]) = 1200
   \<and> fst (classify_batch example_library True (Responds 1200 (Some ''Sorry''))
          [deleted_change 1 (paragraph_block 0 ''Note'')]) (Some 1) = None
   \<and> llm_time_ms (classify_changes example_library ''k'' (Responds 1200 (Some ''Sorry''))
          [deleted_change 1 (paragraph_block 0 ''Note'')] None) = 1200
   \<and> map reasoning
       (classified_changes (classify_changes example_library ''k''
          (Responds 1200 (Some ''Sorry'')) [deleted_change 1 (paragraph_block 0 ''Note'')] None))
     = [''Khong the phan loai'']"
proof -
  let ?c = "deleted_change 1 (paragraph_block 0 ''Note'')"
  let ?r = "classify_changes example_library ''k'' (Responds 1200 (Some ''Sorry'')) [?c] None"
  have b: "classify_batch example_library True (Responds 1200 (Some ''Sorry'')) [?c]
      = (Map.empty, 1200)"
    by (simp add: classify_batch_undecodable[OF _ sorry_undecodable])
  have h: "has_client None ''k''" by (simp add: has_client_def)
  have m: "llm_classified Map.empty ?c \<in> set (classified_changes ?r)"
    and t: "llm_time_ms ?r = 1200"
    using classify_changes_unresolved[OF _ note_unresolved, of "[?c]" example_library None "''k''"
        "Responds 1200 (Some ''Sorry'')"] note_unresolved h b
    by simp_all
  have "length (classified_changes ?r) = 1"
    using arg_cong[OF classify_changes_ids[of example_library "''k''"
          "Responds 1200 (Some ''Sorry'')" "[?c]" None], of length] by simp
  then obtain x where x: "classified_changes ?r = [x]"
    by (cases "classified_changes ?r") auto
  have "x = llm_classified Map.empty ?c" using m x by simp
  then have "reasoning x = ''Khong the phan loai''"
    by (simp add: llm_classified_def classified_change_def)
  then show ?thesis using x t b by simp
qed

subsection \<open>The order of the rules\<close>













subsection \<open>The triviality rule\<close>















subsection \<open>Changes without word changes\<close>








end
